theory Spec2Isabelle
  imports Main
begin

section \<open>Signal11: a shallow embedding of Signal.h\<close>

text \<open>
  The header implements a signal as a ring of reference-counted nodes that live on the
  C++ heap and point at each other.  The embedding keeps that shape: nodes are records
  stored in a map from addresses to nodes, every member function takes the store and
  returns the updated store, and everything that is undefined behaviour or an abort in
  C++ (a null or dangling dereference, a failed \<open>assert\<close>) is a value of type
  \<open>error\<close>.  The loops that follow \<open>_next\<close> pointers take a step budget, since
  on an ill-formed heap they need not stop; running out of it is the error
  \<open>OutOfFuel\<close>.
\<close>

subsection \<open>Data\<close>

type_synonym addr = nat

datatype error = AssertionFailed | NullPointer | Dangling | OutOfFuel

text \<open>
  A callback is a \<open>std::function<R (Args...)>\<close>.  Besides computing its result from the
  emission's argument, C++ code in a callback may call back into the signal that is
  emitting.  The model gives a callback a list of such re-entrant calls, performed in
  order before the result is returned: connecting a further callback, removing a link
  through a handle, and toggling a link's enabled flag.
\<close>

datatype ('a, 'r) action =
    ActConnect "('a, 'r) callback"
  | ActRemove addr
  | ActSetEnabled addr bool
and ('a, 'r) callback =
    Callback (cb_acts: "('a, 'r) action list") (cb_fun: "'a \<Rightarrow> 'r")

text \<open>\<open>struct SignalLink : ProtoSignalLink\<close>; a null pointer or an empty
  \<open>std::function\<close> is \<open>None\<close>.\<close>

record ('a, 'r) SignalLink =
  link_next :: "addr option"
  link_prev :: "addr option"
  callbackFunc :: "('a, 'r) callback option"
  refCount :: int
  enabled :: bool

text \<open>
  The store.  \<open>fresh\<close> is the address the next \<open>new\<close> returns (addresses are not
  reused).  The constructor of \<open>SignalLink\<close> has no initialiser for the inherited member
  \<open>_enabled\<close>, so a new node's flag holds whatever the memory held: \<open>uninit a\<close> is the
  value such a flag reads as at address \<open>a\<close>.  \<open>callbackRing\<close> is the signal's only
  member, and \<open>trace\<close> lists the nodes whose callbacks were invoked, oldest first.
\<close>

record ('a, 'r) world =
  heap :: "addr \<Rightarrow> ('a, 'r) SignalLink option"
  fresh :: addr
  uninit :: "addr \<Rightarrow> bool"
  callbackRing :: "addr option"
  trace :: "addr list"

definition init_world :: "(addr \<Rightarrow> bool) \<Rightarrow> ('a, 'r) world" where
  "init_world u = \<lparr>heap = Map.empty, fresh = 1, uninit = u, callbackRing = None, trace = []\<rparr>"

subsection \<open>SignalLink\<close>

definition new_SignalLink ::
  "('a, 'r) callback option \<Rightarrow> ('a, 'r) world \<Rightarrow> addr \<times> ('a, 'r) world" where
  "new_SignalLink cb w =
     (fresh w,
      w\<lparr>heap := (heap w)(fresh w \<mapsto>
           \<lparr>link_next = None, link_prev = None, callbackFunc = cb, refCount = 1,
            enabled = uninit w (fresh w)\<rparr>),
        fresh := fresh w + 1\<rparr>)"

text \<open>
  \<open>_refCount\<close> is a C++ \<open>int\<close>, 32 bits wide.  The model keeps it as an integer and
  brings the result of \<open>+= 1\<close> and \<open>-= 1\<close> back into the range of \<open>int\<close>: one more
  than the largest value is the smallest, negative one, which the assertion that follows
  rejects.  \<open>delete this\<close> in \<open>decref\<close> runs \<open>~SignalLink\<close>, whose assertion
  \<open>_refCount == 0\<close> holds at that point, the only one where a node is deleted.
\<close>

definition wrap32 :: "int \<Rightarrow> int" where
  "wrap32 x = (x + 2147483648) mod 4294967296 - 2147483648"

definition incref :: "addr \<Rightarrow> ('a, 'r) world \<Rightarrow> error + ('a, 'r) world" where
  "incref a w =
     (case heap w a of
        None \<Rightarrow> Inl Dangling
      | Some nd \<Rightarrow>
          if wrap32 (refCount nd + 1) > 0
          then Inr (w\<lparr>heap := (heap w)(a \<mapsto> nd\<lparr>refCount := wrap32 (refCount nd + 1)\<rparr>)\<rparr>)
          else Inl AssertionFailed)"

definition decref :: "addr \<Rightarrow> ('a, 'r) world \<Rightarrow> error + ('a, 'r) world" where
  "decref a w =
     (case heap w a of
        None \<Rightarrow> Inl Dangling
      | Some nd \<Rightarrow>
          if wrap32 (refCount nd - 1) = 0
          then Inr (w\<lparr>heap := (heap w)(a := None)\<rparr>)
          else if wrap32 (refCount nd - 1) > 0
          then Inr (w\<lparr>heap := (heap w)(a \<mapsto> nd\<lparr>refCount := wrap32 (refCount nd - 1)\<rparr>)\<rparr>)
          else Inl AssertionFailed)"

definition set_next :: "addr \<Rightarrow> addr option \<Rightarrow> ('a, 'r) world \<Rightarrow> error + ('a, 'r) world" where
  "set_next a v w =
     (case heap w a of
        None \<Rightarrow> Inl Dangling
      | Some nd \<Rightarrow> Inr (w\<lparr>heap := (heap w)(a \<mapsto> nd\<lparr>link_next := v\<rparr>)\<rparr>))"

definition set_prev :: "addr \<Rightarrow> addr option \<Rightarrow> ('a, 'r) world \<Rightarrow> error + ('a, 'r) world" where
  "set_prev a v w =
     (case heap w a of
        None \<Rightarrow> Inl Dangling
      | Some nd \<Rightarrow> Inr (w\<lparr>heap := (heap w)(a \<mapsto> nd\<lparr>link_prev := v\<rparr>)\<rparr>))"

definition set_callback ::
  "addr \<Rightarrow> ('a, 'r) callback option \<Rightarrow> ('a, 'r) world \<Rightarrow> error + ('a, 'r) world" where
  "set_callback a v w =
     (case heap w a of
        None \<Rightarrow> Inl Dangling
      | Some nd \<Rightarrow> Inr (w\<lparr>heap := (heap w)(a \<mapsto> nd\<lparr>callbackFunc := v\<rparr>)\<rparr>))"

text \<open>\<open>ProtoSignalLink::setEnabled\<close> and \<open>isEnabled\<close>.\<close>

definition setEnabled :: "addr \<Rightarrow> bool \<Rightarrow> ('a, 'r) world \<Rightarrow> error + ('a, 'r) world" where
  "setEnabled a flag w =
     (case heap w a of
        None \<Rightarrow> Inl Dangling
      | Some nd \<Rightarrow> Inr (w\<lparr>heap := (heap w)(a \<mapsto> nd\<lparr>enabled := flag\<rparr>)\<rparr>))"

definition isEnabled :: "addr \<Rightarrow> ('a, 'r) world \<Rightarrow> error + bool" where
  "isEnabled a w = (case heap w a of None \<Rightarrow> Inl Dangling | Some nd \<Rightarrow> Inr (enabled nd))"

text \<open>\<open>unlink\<close>: each statement reads the node again, as the C++ does through
  \<open>this\<close>.\<close>

definition unlink :: "addr \<Rightarrow> ('a, 'r) world \<Rightarrow> error + ('a, 'r) world" where
  "unlink a w =
     (case set_callback a None w of
        Inl e \<Rightarrow> Inl e
      | Inr w1 \<Rightarrow>
          (case heap w1 a of
             None \<Rightarrow> Inl Dangling
           | Some nd1 \<Rightarrow>
               (case (case link_next nd1 of
                        None \<Rightarrow> Inr w1
                      | Some n \<Rightarrow> set_prev n (link_prev nd1) w1) of
                  Inl e \<Rightarrow> Inl e
                | Inr w2 \<Rightarrow>
                    (case heap w2 a of
                       None \<Rightarrow> Inl Dangling
                     | Some nd2 \<Rightarrow>
                         (case (case link_prev nd2 of
                                  None \<Rightarrow> Inr w2
                                | Some p \<Rightarrow> set_next p (link_next nd2) w2) of
                            Inl e \<Rightarrow> Inl e
                          | Inr w3 \<Rightarrow> decref a w3)))))"

definition addBefore ::
  "addr \<Rightarrow> ('a, 'r) callback option \<Rightarrow> ('a, 'r) world \<Rightarrow> error + (addr \<times> ('a, 'r) world)" where
  "addBefore self cb w =
     (case new_SignalLink cb w of
        (link, w1) \<Rightarrow>
          (case heap w1 self of
             None \<Rightarrow> Inl Dangling
           | Some nd \<Rightarrow>
               (case set_prev link (link_prev nd) w1 of
                  Inl e \<Rightarrow> Inl e
                | Inr w2 \<Rightarrow>
                    (case set_next link (Some self) w2 of
                       Inl e \<Rightarrow> Inl e
                     | Inr w3 \<Rightarrow>
                         (case heap w3 self of
                            None \<Rightarrow> Inl Dangling
                          | Some nd3 \<Rightarrow>
                              (case link_prev nd3 of
                                 None \<Rightarrow> Inl NullPointer
                               | Some p \<Rightarrow>
                                   (case set_next p (Some link) w3 of
                                      Inl e \<Rightarrow> Inl e
                                    | Inr w4 \<Rightarrow>
                                        (case set_prev self (Some link) w4 of
                                           Inl e \<Rightarrow> Inl e
                                         | Inr w5 \<Rightarrow> Inr (link, w5)))))))))"

text \<open>The \<open>for\<close> loop of \<open>removeSibling\<close>, entered with \<open>link\<close> already set.\<close>

fun removeSibling_loop ::
  "nat \<Rightarrow> addr \<Rightarrow> addr option \<Rightarrow> addr option \<Rightarrow> ('a, 'r) world
    \<Rightarrow> error + (bool \<times> ('a, 'r) world)" where
  "removeSibling_loop 0 self ident link w = Inl OutOfFuel"
| "removeSibling_loop (Suc k) self ident link w =
     (if link = Some self then Inr (False, w)
      else
        (case link of
           None \<Rightarrow> Inl NullPointer
         | Some l \<Rightarrow>
             if ident = link
             then (case unlink l w of Inl e \<Rightarrow> Inl e | Inr w' \<Rightarrow> Inr (True, w'))
             else (case heap w l of
                     None \<Rightarrow> Inl Dangling
                   | Some nd \<Rightarrow> removeSibling_loop k self ident (link_next nd) w)))"

definition removeSibling ::
  "nat \<Rightarrow> addr \<Rightarrow> addr option \<Rightarrow> ('a, 'r) world \<Rightarrow> error + (bool \<times> ('a, 'r) world)" where
  "removeSibling k self ident w =
     (case heap w self of
        None \<Rightarrow> Inl Dangling
      | Some nd \<Rightarrow>
          removeSibling_loop k self ident
            (case link_next nd of None \<Rightarrow> Some self | Some n \<Rightarrow> Some n) w)"

text \<open>\<open>SignalLink::remove\<close>.\<close>

definition removeLink ::
  "nat \<Rightarrow> addr \<Rightarrow> ('a, 'r) world \<Rightarrow> error + (bool \<times> ('a, 'r) world)" where
  "removeLink k self w =
     (case heap w self of
        None \<Rightarrow> Inl Dangling
      | Some nd \<Rightarrow>
          (case link_next nd of
             None \<Rightarrow> Inr (False, w)
           | Some n \<Rightarrow> removeSibling k n (Some self) w))"

subsection \<open>ConnectionRef\<close>

text \<open>A handle is its \<open>_link\<close> pointer; \<open>disconnect\<close> returns the handle as it leaves
  it.\<close>

type_synonym ConnectionRef = "addr option"

definition disconnect ::
  "nat \<Rightarrow> ConnectionRef \<Rightarrow> ('a, 'r) world \<Rightarrow> error + (bool \<times> ConnectionRef \<times> ('a, 'r) world)" where
  "disconnect k h w =
     (case h of
        None \<Rightarrow> Inr (False, None, w)
      | Some link \<Rightarrow>
          (case removeLink k link w of
             Inl e \<Rightarrow> Inl e
           | Inr (b, w') \<Rightarrow> Inr (b, None, w')))"

definition ref_setEnabled ::
  "ConnectionRef \<Rightarrow> bool \<Rightarrow> ('a, 'r) world \<Rightarrow> error + ('a, 'r) world" where
  "ref_setEnabled h flag w =
     (case h of None \<Rightarrow> Inl NullPointer | Some link \<Rightarrow> setEnabled link flag w)"

definition ref_isEnabled :: "ConnectionRef \<Rightarrow> ('a, 'r) world \<Rightarrow> error + bool" where
  "ref_isEnabled h w = (case h of None \<Rightarrow> Inl NullPointer | Some link \<Rightarrow> isEnabled link w)"

subsection \<open>ProtoSignal\<close>

definition ensureRing :: "('a, 'r) world \<Rightarrow> error + ('a, 'r) world" where
  "ensureRing w =
     (case callbackRing w of
        Some r \<Rightarrow> Inr w
      | None \<Rightarrow>
          (case new_SignalLink None w of
             (r, w1) \<Rightarrow>
               (case incref r (w1\<lparr>callbackRing := Some r\<rparr>) of
                  Inl e \<Rightarrow> Inl e
                | Inr w2 \<Rightarrow>
                    (case set_next r (Some r) w2 of
                       Inl e \<Rightarrow> Inl e
                     | Inr w3 \<Rightarrow> set_prev r (Some r) w3))))"

text \<open>The constructor \<open>ProtoSignal(const CallbackFunction &method)\<close>, run on a store
  that holds no signal yet.\<close>

definition ProtoSignal ::
  "('a, 'r) callback option \<Rightarrow> ('a, 'r) world \<Rightarrow> error + ('a, 'r) world" where
  "ProtoSignal method w =
     (let w0 = w\<lparr>callbackRing := None\<rparr> in
      case method of
        None \<Rightarrow> Inr w0
      | Some m \<Rightarrow>
          (case ensureRing w0 of
             Inl e \<Rightarrow> Inl e
           | Inr w1 \<Rightarrow>
               (case callbackRing w1 of
                  None \<Rightarrow> Inl NullPointer
                | Some r \<Rightarrow> set_callback r (Some m) w1)))"

definition connect ::
  "('a, 'r) callback option \<Rightarrow> ('a, 'r) world \<Rightarrow> error + (ConnectionRef \<times> ('a, 'r) world)" where
  "connect cb w =
     (case ensureRing w of
        Inl e \<Rightarrow> Inl e
      | Inr w1 \<Rightarrow>
          (case callbackRing w1 of
             None \<Rightarrow> Inl NullPointer
           | Some r \<Rightarrow>
               (case addBefore r cb w1 of
                  Inl e \<Rightarrow> Inl e
                | Inr (link, w2) \<Rightarrow> Inr (Some link, w2))))"

text \<open>\<open>ProtoSignal::disconnect(SignalLink *link)\<close>.\<close>

definition disconnectLink ::
  "nat \<Rightarrow> addr option \<Rightarrow> ('a, 'r) world \<Rightarrow> error + (bool \<times> ('a, 'r) world)" where
  "disconnectLink k link w =
     (case callbackRing w of
        None \<Rightarrow> Inr (False, w)
      | Some r \<Rightarrow> removeSibling k r link w)"

text \<open>The destructor: the \<open>while\<close> loop, then the assertion and the two releases.\<close>

fun destroy_loop :: "nat \<Rightarrow> addr \<Rightarrow> ('a, 'r) world \<Rightarrow> error + ('a, 'r) world" where
  "destroy_loop 0 r w = Inl OutOfFuel"
| "destroy_loop (Suc k) r w =
     (case heap w r of
        None \<Rightarrow> Inl Dangling
      | Some nd \<Rightarrow>
          if link_next nd = Some r then Inr w
          else
            (case link_next nd of
               None \<Rightarrow> Inl NullPointer
             | Some n \<Rightarrow>
                 (case unlink n w of Inl e \<Rightarrow> Inl e | Inr w' \<Rightarrow> destroy_loop k r w')))"

definition destroy :: "nat \<Rightarrow> ('a, 'r) world \<Rightarrow> error + ('a, 'r) world" where
  "destroy k w =
     (case callbackRing w of
        None \<Rightarrow> Inr w
      | Some r \<Rightarrow>
          (case destroy_loop k r w of
             Inl e \<Rightarrow> Inl e
           | Inr w1 \<Rightarrow>
               (case heap w1 r of
                  None \<Rightarrow> Inl Dangling
                | Some nd \<Rightarrow>
                    if refCount nd \<ge> 2
                    then (case decref r w1 of Inl e \<Rightarrow> Inl e | Inr w2 \<Rightarrow> decref r w2)
                    else Inl AssertionFailed)))"

subsection \<open>Collectors\<close>

text \<open>
  A collector class: the state a freshly constructed collector holds, \<open>operator()\<close>
  (the new state and whether the emission continues) and \<open>result()\<close>.
\<close>

record ('r, 'cs, 'res) collector =
  c_init :: 'cs
  c_call :: "'cs \<Rightarrow> 'r \<Rightarrow> 'cs \<times> bool"
  c_result :: "'cs \<Rightarrow> 'res"

text \<open>\<open>CollectorLast\<close>: the constructor body is empty and \<open>_last\<close> has no
  initialiser, so a new collector holds an indeterminate value; it is the parameter.\<close>

definition CollectorLast :: "'r \<Rightarrow> ('r, 'r, 'r) collector" where
  "CollectorLast garbage =
     \<lparr>c_init = garbage, c_call = (\<lambda>last r. (r, True)), c_result = (\<lambda>last. last)\<rparr>"

text \<open>\<open>CollectorUntil0\<close> and \<open>CollectorWhile0\<close> value-initialise \<open>_result\<close>;
  \<open>zero\<close> is that value and \<open>truthy\<close> the conversion of a result to \<open>bool\<close>.\<close>

definition CollectorUntil0 :: "('r \<Rightarrow> bool) \<Rightarrow> 'r \<Rightarrow> ('r, 'r, 'r) collector" where
  "CollectorUntil0 truthy zero =
     \<lparr>c_init = zero,
      c_call = (\<lambda>res r. (r, if truthy r then True else False)),
      c_result = (\<lambda>res. res)\<rparr>"

definition CollectorWhile0 :: "('r \<Rightarrow> bool) \<Rightarrow> 'r \<Rightarrow> ('r, 'r, 'r) collector" where
  "CollectorWhile0 truthy zero =
     \<lparr>c_init = zero,
      c_call = (\<lambda>res r. (r, if truthy r then False else True)),
      c_result = (\<lambda>res. res)\<rparr>"

definition CollectorVector :: "('r, 'r list, 'r list) collector" where
  "CollectorVector =
     \<lparr>c_init = [], c_call = (\<lambda>res r. (res @ [r], True)), c_result = (\<lambda>res. res)\<rparr>"

subsection \<open>Emission\<close>

definition run_action ::
  "nat \<Rightarrow> ('a, 'r) action \<Rightarrow> ('a, 'r) world \<Rightarrow> error + ('a, 'r) world" where
  "run_action k act w =
     (case act of
        ActConnect c \<Rightarrow>
          (case connect (Some c) w of Inl e \<Rightarrow> Inl e | Inr (h, w') \<Rightarrow> Inr w')
      | ActRemove x \<Rightarrow>
          (case removeLink k x w of Inl e \<Rightarrow> Inl e | Inr (b, w') \<Rightarrow> Inr w')
      | ActSetEnabled x flag \<Rightarrow> setEnabled x flag w)"

fun run_actions ::
  "nat \<Rightarrow> ('a, 'r) action list \<Rightarrow> ('a, 'r) world \<Rightarrow> error + ('a, 'r) world" where
  "run_actions k [] w = Inr w"
| "run_actions k (act # acts) w =
     (case run_action k act w of Inl e \<Rightarrow> Inl e | Inr w' \<Rightarrow> run_actions k acts w')"

text \<open>\<open>CollectorInvocation::invoke\<close> on the callback of node \<open>link\<close>.\<close>

definition invoke ::
  "nat \<Rightarrow> ('r, 'cs, 'res) collector \<Rightarrow> 'cs \<Rightarrow> addr \<Rightarrow> ('a, 'r) callback \<Rightarrow> 'a
    \<Rightarrow> ('a, 'r) world \<Rightarrow> error + (bool \<times> 'cs \<times> ('a, 'r) world)" where
  "invoke k C cs link cb args w =
     (case run_actions k (cb_acts cb) (w\<lparr>trace := trace w @ [link]\<rparr>) of
        Inl e \<Rightarrow> Inl e
      | Inr w' \<Rightarrow>
          (case c_call C cs (cb_fun cb args) of (cs', cont) \<Rightarrow> Inr (cont, cs', w')))"

text \<open>The \<open>do ... while\<close> loop of \<open>emit\<close>; it returns the collector state, the node the
  loop ended on and the store.  The first number bounds the iterations of this loop, the
  second is the budget of every walk a callback starts.\<close>

fun emit_loop ::
  "nat \<Rightarrow> nat \<Rightarrow> ('r, 'cs, 'res) collector \<Rightarrow> 'a \<Rightarrow> addr \<Rightarrow> addr \<Rightarrow> 'cs \<Rightarrow> ('a, 'r) world
    \<Rightarrow> error + ('cs \<times> addr \<times> ('a, 'r) world)" where
  "emit_loop 0 kw C args ring link cs w = Inl OutOfFuel"
| "emit_loop (Suc k) kw C args ring link cs w =
     (case heap w link of
        None \<Rightarrow> Inl Dangling
      | Some nd \<Rightarrow>
          (case (if enabled nd \<and> callbackFunc nd \<noteq> None
                 then invoke kw C cs link (the (callbackFunc nd)) args w
                 else Inr (True, cs, w)) of
             Inl e \<Rightarrow> Inl e
           | Inr (cont, cs1, w1) \<Rightarrow>
               if \<not> cont then Inr (cs1, link, w1)
               else
                 (case heap w1 link of
                    None \<Rightarrow> Inl Dangling
                  | Some old \<Rightarrow>
                      (case link_next old of
                         None \<Rightarrow> Inl NullPointer
                       | Some nxt \<Rightarrow>
                           (case incref nxt w1 of
                              Inl e \<Rightarrow> Inl e
                            | Inr w2 \<Rightarrow>
                                (case decref link w2 of
                                   Inl e \<Rightarrow> Inl e
                                 | Inr w3 \<Rightarrow>
                                     if nxt \<noteq> ring
                                     then emit_loop k kw C args ring nxt cs1 w3
                                     else Inr (cs1, nxt, w3)))))))"

definition emit ::
  "nat \<Rightarrow> ('r, 'cs, 'res) collector \<Rightarrow> 'a \<Rightarrow> ('a, 'r) world
    \<Rightarrow> error + ('res \<times> ('a, 'r) world)" where
  "emit k C args w =
     (case callbackRing w of
        None \<Rightarrow> Inr (c_result C (c_init C), w)
      | Some ring \<Rightarrow>
          (case incref ring w of
             Inl e \<Rightarrow> Inl e
           | Inr w1 \<Rightarrow>
               (case emit_loop k k C args ring ring (c_init C) w1 of
                  Inl e \<Rightarrow> Inl e
                | Inr (cs, link, w2) \<Rightarrow>
                    (case decref link w2 of
                       Inl e \<Rightarrow> Inl e
                     | Inr w3 \<Rightarrow> Inr (c_result C cs, w3)))))"

subsection \<open>Client programs\<close>

text \<open>
  A client of one signal: a sequence of calls of the public interface.  A handle is named
  by the node it points at, \<open>Disconnect\<close> and \<open>SetEnabled\<close> go through a
  \<open>ConnectionRef\<close> to that node, and the results of the emissions are returned in order.
\<close>

datatype ('a, 'r) call =
    Connect "('a, 'r) callback option"
  | Disconnect addr
  | SetEnabled addr bool
  | Emit 'a

fun run_calls ::
  "nat \<Rightarrow> ('r, 'cs, 'res) collector \<Rightarrow> ('a, 'r) call list \<Rightarrow> ('a, 'r) world
    \<Rightarrow> error + ('res list \<times> ('a, 'r) world)" where
  "run_calls k C [] w = Inr ([], w)"
| "run_calls k C (Connect cb # cs) w =
     (case connect cb w of Inl e \<Rightarrow> Inl e | Inr (h, w') \<Rightarrow> run_calls k C cs w')"
| "run_calls k C (Disconnect x # cs) w =
     (case disconnect k (Some x) w of Inl e \<Rightarrow> Inl e | Inr (b, h, w') \<Rightarrow> run_calls k C cs w')"
| "run_calls k C (SetEnabled x flag # cs) w =
     (case ref_setEnabled (Some x) flag w of Inl e \<Rightarrow> Inl e | Inr w' \<Rightarrow> run_calls k C cs w')"
| "run_calls k C (Emit args # cs) w =
     (case emit k C args w of
        Inl e \<Rightarrow> Inl e
      | Inr (r, w') \<Rightarrow>
          (case run_calls k C cs w' of
             Inl e \<Rightarrow> Inl e
           | Inr (rs, w'') \<Rightarrow> Inr (r # rs, w'')))"

text \<open>What a test observes of a run: the emissions' results and the nodes invoked.\<close>

definition observe ::
  "error + ('res list \<times> ('a, 'r) world) \<Rightarrow> error + ('res list \<times> addr list)" where
  "observe x = (case x of Inl e \<Rightarrow> Inl e | Inr (rs, w) \<Rightarrow> Inr (rs, trace w))"

text \<open>Sequencing of two fallible steps, and a client that first constructs the signal
  with the default callback \<open>m\<close> on an empty store.\<close>

definition andThen :: "error + 'x \<Rightarrow> ('x \<Rightarrow> error + 'y) \<Rightarrow> error + 'y" where
  "andThen x f = (case x of Inl e \<Rightarrow> Inl e | Inr v \<Rightarrow> f v)"

definition signal_run ::
  "nat \<Rightarrow> ('r, 'cs, 'res) collector \<Rightarrow> ('a, 'r) callback option \<Rightarrow> ('a, 'r) call list
    \<Rightarrow> (addr \<Rightarrow> bool) \<Rightarrow> error + ('res list \<times> ('a, 'r) world)" where
  "signal_run k C m calls u = andThen (ProtoSignal m (init_world u)) (run_calls k C calls)"

text \<open>The callback slot of the sentinel, the node \<open>_callbackRing\<close> points at.\<close>

definition sentinel_slot :: "('a, 'r) world \<Rightarrow> ('a, 'r) callback option" where
  "sentinel_slot w =
     (case callbackRing w of
        None \<Rightarrow> None
      | Some s \<Rightarrow> (case heap w s of None \<Rightarrow> None | Some nd \<Rightarrow> callbackFunc nd))"

text \<open>The reference count of the sentinel.\<close>

definition sentinel_refs :: "('a, 'r) world \<Rightarrow> int option" where
  "sentinel_refs w =
     (case callbackRing w of None \<Rightarrow> None | Some s \<Rightarrow> map_option refCount (heap w s))"

definition on_world ::
  "(('a, 'r) world \<Rightarrow> 'x) \<Rightarrow> error + ('y \<times> ('a, 'r) world) \<Rightarrow> error + 'x" where
  "on_world f x = (case x of Inl e \<Rightarrow> Inl e | Inr (rs, w) \<Rightarrow> Inr (f w))"

subsection \<open>The ring as a list\<close>

text \<open>
  The properties below describe the ring by the list of its nodes.  \<open>nxt h x\<close> and
  \<open>prv h x\<close> are the successor and predecessor links of the node at \<open>x\<close> (none when
  \<open>x\<close> is not allocated or the link is null), and \<open>path F a xs b\<close> says that following
  \<open>F\<close> from \<open>a\<close> visits exactly the nodes \<open>xs\<close> and then arrives at \<open>b\<close>.
\<close>

definition nxt :: "(addr \<Rightarrow> ('a, 'r) SignalLink option) \<Rightarrow> addr \<Rightarrow> addr option" where
  "nxt h x = Option.bind (h x) link_next"

definition prv :: "(addr \<Rightarrow> ('a, 'r) SignalLink option) \<Rightarrow> addr \<Rightarrow> addr option" where
  "prv h x = Option.bind (h x) link_prev"

fun path :: "(addr \<Rightarrow> addr option) \<Rightarrow> addr \<Rightarrow> addr list \<Rightarrow> addr \<Rightarrow> bool" where
  "path F a [] b = (a = b)"
| "path F a (x # xs) b = (a = x \<and> (case F x of None \<Rightarrow> False | Some y \<Rightarrow> path F y xs b))"

text \<open>\<open>ring_at h s xs\<close>: in heap \<open>h\<close> the sentinel \<open>s\<close> and the nodes \<open>xs\<close>, in connection
  order, form a ring, forwards through \<open>_next\<close> and backwards through \<open>_prev\<close>.\<close>

definition ring_at :: "(addr \<Rightarrow> ('a, 'r) SignalLink option) \<Rightarrow> addr \<Rightarrow> addr list \<Rightarrow> bool" where
  "ring_at h s xs =
     (distinct (s # xs) \<and> path (nxt h) s (s # xs) s \<and> path (prv h) s (s # rev xs) s)"

text \<open>What a node holds apart from its two links.\<close>

definition payload :: "('a, 'r) SignalLink \<Rightarrow> ('a, 'r) callback option \<times> int \<times> bool" where
  "payload nd = (callbackFunc nd, refCount nd, enabled nd)"

text \<open>
  \<open>ring_ok w s xs\<close>: the signal of store \<open>w\<close> owns the ring \<open>s\<close>, \<open>xs\<close>, and no
  emission is in progress: the sentinel holds the two references of \<open>ensureRing\<close>, every
  other node the one of its constructor, and all of them were handed out by \<open>new\<close>.
\<close>

definition ring_ok :: "('a, 'r) world \<Rightarrow> addr \<Rightarrow> addr list \<Rightarrow> bool" where
  "ring_ok w s xs =
     (callbackRing w = Some s \<and> ring_at (heap w) s xs
      \<and> map_option refCount (heap w s) = Some 2
      \<and> list_all (\<lambda>x. map_option refCount (heap w x) = Some 1) xs
      \<and> list_all (\<lambda>x. x < fresh w) (s # xs))"


text \<open>
  What an emission does, read off the list of nodes: \<open>collect\<close> feeds the results of
  the enabled callbacks of \<open>xs\<close> to the collector, in order, until the collector stops
  the emission, and returns the collector's state with the nodes invoked.
\<close>

fun collect ::
  "('r, 'cs, 'res) collector \<Rightarrow> 'a \<Rightarrow> (addr \<Rightarrow> ('a, 'r) SignalLink option) \<Rightarrow> addr list \<Rightarrow> 'cs
    \<Rightarrow> 'cs \<times> addr list" where
  "collect C args h [] cs = (cs, [])"
| "collect C args h (x # xs) cs =
     (case h x of
        None \<Rightarrow> (cs, [])
      | Some nd \<Rightarrow>
          (case callbackFunc nd of
             None \<Rightarrow> collect C args h xs cs
           | Some cb \<Rightarrow>
               if enabled nd
               then (case c_call C cs (cb_fun cb args) of
                       (cs', cont) \<Rightarrow>
                         if cont
                         then (case collect C args h xs cs' of (cs'', tr) \<Rightarrow> (cs'', x # tr))
                         else (cs', [x]))
               else collect C args h xs cs))"

text \<open>A node whose callback, if any, does not call back into the signal.\<close>

definition pure_at :: "(addr \<Rightarrow> ('a, 'r) SignalLink option) \<Rightarrow> addr \<Rightarrow> bool" where
  "pure_at h x =
     (case h x of
        None \<Rightarrow> True
      | Some nd \<Rightarrow> (case callbackFunc nd of None \<Rightarrow> True | Some cb \<Rightarrow> cb_acts cb = []))"

text \<open>The heap with one more reference on node \<open>a\<close>, the one an emission holds on the
  node it stands on; \<open>emit_next\<close> is the test at the foot of the emission loop.\<close>

definition bump ::
  "(addr \<Rightarrow> ('a, 'r) SignalLink option) \<Rightarrow> addr \<Rightarrow> (addr \<Rightarrow> ('a, 'r) SignalLink option)" where
  "bump h a = (case h a of None \<Rightarrow> h | Some nd \<Rightarrow> h(a \<mapsto> nd\<lparr>refCount := refCount nd + 1\<rparr>))"

definition emit_next ::
  "nat \<Rightarrow> nat \<Rightarrow> ('r, 'cs, 'res) collector \<Rightarrow> 'a \<Rightarrow> addr \<Rightarrow> addr \<Rightarrow> 'cs \<Rightarrow> ('a, 'r) world
    \<Rightarrow> error + ('cs \<times> addr \<times> ('a, 'r) world)" where
  "emit_next k kw C args s z cs w =
     (if z \<noteq> s then emit_loop k kw C args s z cs w else Inr (cs, z, w))"

subsection \<open>Clients that do not re-enter\<close>

text \<open>
  Callbacks without re-entrant calls, the node a call goes to through a handle, and the
  calls whose callbacks do not re-enter.
\<close>

definition pure_cb :: "('a, 'r) callback option \<Rightarrow> bool" where
  "pure_cb cb = (case cb of None \<Rightarrow> True | Some c \<Rightarrow> cb_acts c = [])"

fun target :: "('a, 'r) call \<Rightarrow> addr option" where
  "target (Connect cb) = None"
| "target (Disconnect x) = Some x"
| "target (SetEnabled x flag) = Some x"
| "target (Emit args) = None"

fun plain_call :: "('a, 'r) call \<Rightarrow> bool" where
  "plain_call (Connect cb) = pure_cb cb"
| "plain_call (Disconnect x) = True"
| "plain_call (SetEnabled x flag) = True"
| "plain_call (Emit args) = True"

text \<open>A node an emission invokes when it reaches it.\<close>

definition active :: "(addr \<Rightarrow> ('a, 'r) SignalLink option) \<Rightarrow> addr \<Rightarrow> bool" where
  "active h x = (case h x of None \<Rightarrow> False | Some nd \<Rightarrow> enabled nd \<and> callbackFunc nd \<noteq> None)"

text \<open>
  \<open>signal_inv m s w xs\<close> holds in the states a client reaches that constructed the signal
  with default callback \<open>m\<close> on a store whose next address is \<open>s\<close>: either the ring was
  not materialised yet and nothing is allocated, or the ring is \<open>s\<close>, \<open>xs\<close>, the
  sentinel's slot holds \<open>m\<close>, its flag is still the uninitialised one, nothing else is
  allocated and no callback re-enters.
\<close>

definition signal_inv ::
  "('a, 'r) callback option \<Rightarrow> addr \<Rightarrow> ('a, 'r) world \<Rightarrow> addr list \<Rightarrow> bool" where
  "signal_inv m s w xs =
     (case callbackRing w of
        None \<Rightarrow> m = None \<and> xs = [] \<and> fresh w = s \<and> (\<forall>x. heap w x = None)
      | Some r \<Rightarrow>
          r = s \<and> ring_ok w s xs \<and> sentinel_slot w = m
          \<and> map_option enabled (heap w s) = Some (uninit w s)
          \<and> (\<forall>x. x \<notin> set (s # xs) \<longrightarrow> heap w x = None)
          \<and> list_all (pure_at (heap w)) (s # xs))"

text \<open>A signal with two connected handlers, returning 10 and 20, all flags reading true.\<close>

definition two_handlers :: "(unit, int) world" where
  "two_handlers =
     snd (projr (signal_run 3 CollectorVector None
       [Connect (Some (Callback [] (\<lambda>x. 10))), Connect (Some (Callback [] (\<lambda>x. 20)))]
       (\<lambda>a. True)))"

subsection \<open>Clients that use the handles they were given\<close>



subsection \<open>Clients that never remove the sentinel\<close>




subsection \<open>The reference counts of the states a client reaches\<close>







section \<open>Properties\<close>

lemma wrap32_id: "- 2147483648 \<le> x \<Longrightarrow> x < 2147483648 \<Longrightarrow> wrap32 x = x"
  by (simp add: wrap32_def)

lemmas prim_defs =
  new_SignalLink_def incref_def decref_def wrap32_def set_next_def set_prev_def set_callback_def
  setEnabled_def isEnabled_def

lemmas op_defs =
  unlink_def addBefore_def removeSibling_def removeLink_def disconnect_def ensureRing_def
  ProtoSignal_def connect_def disconnectLink_def destroy_def invoke_def emit_def
  run_action_def ref_setEnabled_def

lemmas run_defs = signal_run_def andThen_def observe_def on_world_def init_world_def

subsection \<open>Paths\<close>

lemma path_append: "path F a (xs @ ys) c = (\<exists>b. path F a xs b \<and> path F b ys c)"
  by (induction xs arbitrary: a) (auto split: option.splits)

lemma path_cong: "(\<And>x. x \<in> set xs \<Longrightarrow> G x = F x) \<Longrightarrow> path G a xs b = path F a xs b"
  by (induction xs arbitrary: a) (auto split: option.splits)

lemma path_snoc: "path F a (xs @ [x]) b = (path F a xs x \<and> F x = Some b)"
  by (auto simp: path_append split: option.splits)

lemma path_hd: "path F a (x # xs) b \<Longrightarrow> a = x"
  by simp

lemma path_last: "path F a xs b \<Longrightarrow> xs \<noteq> [] \<Longrightarrow> F (last xs) = Some b"
  by (induction xs arbitrary: a) (auto split: option.splits if_splits)

lemma path_cut:
  assumes "path F a0 (us @ a # vs) c" "distinct (us @ a # vs)" "us \<noteq> []"
    and "G (last us) = Some (hd (vs @ [c]))"
    and "\<And>y. y \<in> set (butlast us) \<union> set vs \<Longrightarrow> G y = F y"
  shows "path G a0 (us @ vs) c"
proof -
  obtain ws p where us: "us = ws @ [p]" using assms(3) by (metis append_butlast_last_id)
  from assms(1) have p1: "path F a0 ws p" and p2: "F p = Some a" and p3: "path F a (a # vs) c"
    by (auto simp: us path_append split: option.splits)
  from p3 obtain n where n: "F a = Some n" "path F n vs c" by (auto split: option.splits)
  have hn: "hd (vs @ [c]) = n" using n(2) by (cases vs) auto
  have "path G a0 ws p" using p1 assms(5) by (subst path_cong[where F=F]) (auto simp: us)
  moreover have "G p = Some n" using assms(4) hn by (simp add: us)
  moreover have "path G n vs c" using n(2) assms(5) by (subst path_cong[where F=F]) auto
  ultimately show ?thesis by (auto simp: us path_append)
qed

lemma path_extend:
  assumes "path F a0 us c" "us \<noteq> []" "a \<notin> set us" "distinct us"
    and "G (last us) = Some a" "G a = Some c"
    and "\<And>y. y \<in> set (butlast us) \<Longrightarrow> G y = F y"
  shows "path G a0 (us @ [a]) c"
proof -
  obtain ws p where us: "us = ws @ [p]" using assms(2) by (metis append_butlast_last_id)
  from assms(1) have p1: "path F a0 ws p" by (auto simp: us path_append split: option.splits)
  have "path G a0 ws p" using p1 assms(7) by (subst path_cong[where F=F]) (auto simp: us)
  then show ?thesis using assms(5,6) by (auto simp: us path_append)
qed

subsection \<open>Effects of unlink and addBefore on the links\<close>

lemma nxt_upd: "nxt (h(a \<mapsto> nd)) = (nxt h)(a := link_next nd)"
  by (auto simp: nxt_def fun_eq_iff)

lemma prv_upd: "prv (h(a \<mapsto> nd)) = (prv h)(a := link_prev nd)"
  by (auto simp: prv_def fun_eq_iff)

lemma nxt_del: "nxt (h(a := None)) = (nxt h)(a := None)"
  by (auto simp: nxt_def fun_eq_iff)

lemma prv_del: "prv (h(a := None)) = (prv h)(a := None)"
  by (auto simp: prv_def fun_eq_iff)

lemma nxt_Some: "h a = Some nd \<Longrightarrow> nxt h a = link_next nd"
  by (simp add: nxt_def)

lemma prv_Some: "h a = Some nd \<Longrightarrow> prv h a = link_prev nd"
  by (simp add: prv_def)

lemma nxt_alloc: "nxt h a = Some b \<Longrightarrow> \<exists>nd. h a = Some nd \<and> link_next nd = Some b"
  by (cases "h a") (auto simp: nxt_def)

lemma prv_alloc: "prv h a = Some b \<Longrightarrow> \<exists>nd. h a = Some nd \<and> link_prev nd = Some b"
  by (cases "h a") (auto simp: prv_def)

lemma unlink_effect:
  assumes "heap w a = Some nd" "link_next nd = Some n" "link_prev nd = Some p"
    and "a \<noteq> n" "a \<noteq> p" "heap w n = Some ndn" "heap w p = Some ndp" "refCount nd = 1"
  shows "\<exists>H. unlink a w = Inr (w\<lparr>heap := H\<rparr>) \<and> H a = None
            \<and> nxt H = (nxt (heap w))(p := Some n, a := None)
            \<and> prv H = (prv (heap w))(n := Some p, a := None)
            \<and> (\<forall>y. y \<noteq> a \<longrightarrow> map_option payload (H y) = map_option payload (heap w y))"
proof (cases "p = n")
  case True
  let ?H = "(heap w)(a := None, n \<mapsto> ndn\<lparr>link_prev := Some p, link_next := Some n\<rparr>)"
  have "unlink a w = Inr (w\<lparr>heap := ?H\<rparr>)"
    using assms True by (simp add: unlink_def prim_defs fun_upd_twist)
  moreover have "nxt ?H = (nxt (heap w))(p := Some n, a := None)"
    using assms True by (auto simp: nxt_def fun_eq_iff)
  moreover have "prv ?H = (prv (heap w))(n := Some p, a := None)"
    using assms True by (auto simp: prv_def fun_eq_iff)
  moreover have "\<forall>y. y \<noteq> a \<longrightarrow> map_option payload (?H y) = map_option payload (heap w y)"
    using assms True by (auto simp: payload_def)
  moreover have "?H a = None" using assms by simp
  ultimately show ?thesis by blast
next
  case False
  let ?H = "(heap w)(a := None, n \<mapsto> ndn\<lparr>link_prev := Some p\<rparr>,
                     p \<mapsto> ndp\<lparr>link_next := Some n\<rparr>)"
  have "unlink a w = Inr (w\<lparr>heap := ?H\<rparr>)"
    using assms False by (simp add: unlink_def prim_defs fun_upd_twist)
  moreover have "nxt ?H = (nxt (heap w))(p := Some n, a := None)"
    using assms False by (auto simp: nxt_def fun_eq_iff)
  moreover have "prv ?H = (prv (heap w))(n := Some p, a := None)"
    using assms False by (auto simp: prv_def fun_eq_iff)
  moreover have "\<forall>y. y \<noteq> a \<longrightarrow> map_option payload (?H y) = map_option payload (heap w y)"
    using assms False by (auto simp: payload_def)
  moreover have "?H a = None" using assms False by simp
  ultimately show ?thesis by blast
qed

lemma addBefore_effect:
  assumes "heap w s = Some nds" "link_prev nds = Some l" "heap w l = Some ndl"
    and "fresh w \<noteq> s" "fresh w \<noteq> l"
  shows "\<exists>H. addBefore s cb w = Inr (fresh w, w\<lparr>heap := H, fresh := fresh w + 1\<rparr>)
            \<and> H (fresh w) = Some \<lparr>link_next = Some s, link_prev = Some l, callbackFunc = cb,
                                   refCount = 1, enabled = uninit w (fresh w)\<rparr>
            \<and> nxt H = (nxt (heap w))(fresh w := Some s, l := Some (fresh w))
            \<and> prv H = (prv (heap w))(fresh w := Some l, s := Some (fresh w))
            \<and> (\<forall>y. y \<noteq> fresh w \<longrightarrow> map_option payload (H y) = map_option payload (heap w y))"
proof -
  let ?a = "fresh w"
  let ?N = "\<lparr>link_next = Some s, link_prev = Some l, callbackFunc = cb,
                                   refCount = 1, enabled = uninit w (fresh w)\<rparr>"
  let ?H = "if l = s then (heap w)(?a \<mapsto> ?N, s \<mapsto> nds\<lparr>link_next := Some ?a, link_prev := Some ?a\<rparr>)
            else (heap w)(?a \<mapsto> ?N, l \<mapsto> ndl\<lparr>link_next := Some ?a\<rparr>, s \<mapsto> nds\<lparr>link_prev := Some ?a\<rparr>)"
  have "addBefore s cb w = Inr (?a, w\<lparr>heap := ?H, fresh := ?a + 1\<rparr>)"
    using assms by (auto simp: addBefore_def prim_defs fun_upd_twist)
  moreover have "nxt ?H = (nxt (heap w))(?a := Some s, l := Some ?a)"
    using assms by (auto simp: nxt_def fun_eq_iff)
  moreover have "prv ?H = (prv (heap w))(?a := Some l, s := Some ?a)"
    using assms by (auto simp: prv_def fun_eq_iff)
  moreover have "\<forall>y. y \<noteq> ?a \<longrightarrow> map_option payload (?H y) = map_option payload (heap w y)"
    using assms by (auto simp: payload_def)
  moreover have "?H ?a = Some ?N" using assms by auto
  ultimately show ?thesis by blast
qed

subsection \<open>Rings\<close>

lemma path_start: "path F a xs b \<Longrightarrow> a = hd (xs @ [b])"
  by (cases xs) auto

lemma ring_at_nxt:
  assumes "ring_at h s (as @ x # bs)"
  shows "nxt h x = Some (hd (bs @ [s]))"
proof -
  from assms have "path (nxt h) s ((s # as) @ x # bs) s" by (simp add: ring_at_def)
  then obtain b where "path (nxt h) b (x # bs) s" unfolding path_append by blast
  then obtain y where y: "nxt h x = Some y" "path (nxt h) y bs s" by (auto split: option.splits)
  from path_start[OF y(2)] y(1) show ?thesis by simp
qed

lemma ring_at_prv:
  assumes "ring_at h s (as @ x # bs)"
  shows "prv h x = Some (last (s # as))"
proof -
  from assms have "path (prv h) s ((s # rev bs) @ x # rev as) s" by (simp add: ring_at_def)
  then obtain b where "path (prv h) b (x # rev as) s" unfolding path_append by blast
  then obtain y where y: "prv h x = Some y" "path (prv h) y (rev as) s" by (auto split: option.splits)
  from path_start[OF y(2)] y(1) show ?thesis by (cases as rule: rev_cases) auto
qed

lemma ring_at_nxt_s: "ring_at h s xs \<Longrightarrow> nxt h s = Some (hd (xs @ [s]))"
  by (auto simp: ring_at_def split: option.splits dest: path_start)

lemma ring_at_prv_s: "ring_at h s xs \<Longrightarrow> prv h s = Some (last (s # xs))"
  by (cases xs rule: rev_cases) (auto simp: ring_at_def split: option.splits dest: path_start)

lemma ring_at_alloc: "ring_at h s xs \<Longrightarrow> x \<in> set (s # xs) \<Longrightarrow> \<exists>nd. h x = Some nd"
  using ring_at_nxt_s[of h s xs] ring_at_nxt[of h s _ x]
  by (auto simp: in_set_conv_decomp dest!: nxt_alloc)

subsection \<open>The search of removeSibling\<close>

lemma walk_miss:
  "path (nxt (heap w)) l ys self \<Longrightarrow> self \<notin> set ys \<Longrightarrow> t \<notin> Some ` set ys \<Longrightarrow> length ys < k
    \<Longrightarrow> removeSibling_loop k self t (Some l) w = Inr (False, w)"
proof (induction ys arbitrary: l k)
  case Nil
  then show ?case by (cases k) auto
next
  case (Cons y ys)
  then obtain k' where k: "k = Suc k'" by (cases k) auto
  from Cons.prems obtain l' where l': "l = y" "nxt (heap w) y = Some l'" "path (nxt (heap w)) l' ys self"
    by (auto split: option.splits)
  from nxt_alloc[OF l'(2)] obtain nd where nd: "heap w y = Some nd" "link_next nd = Some l'" by blast
  have "removeSibling_loop k' self t (Some l') w = Inr (False, w)"
    using Cons.IH[OF l'(3)] Cons.prems k by auto
  then show ?case using Cons.prems l' nd k by auto
qed

lemma walk_hit:
  "path (nxt (heap w)) l ys t \<Longrightarrow> self \<notin> set ys \<Longrightarrow> t \<notin> set ys \<Longrightarrow> t \<noteq> self \<Longrightarrow> length ys < k
    \<Longrightarrow> removeSibling_loop k self (Some t) (Some l) w =
          (case unlink t w of Inl e \<Rightarrow> Inl e | Inr w' \<Rightarrow> Inr (True, w'))"
proof (induction ys arbitrary: l k)
  case Nil
  then show ?case by (cases k) auto
next
  case (Cons y ys)
  then obtain k' where k: "k = Suc k'" by (cases k) auto
  from Cons.prems obtain l' where l': "l = y" "nxt (heap w) y = Some l'" "path (nxt (heap w)) l' ys t"
    by (auto split: option.splits)
  from nxt_alloc[OF l'(2)] obtain nd where nd: "heap w y = Some nd" "link_next nd = Some l'" by blast
  have "removeSibling_loop k' self (Some t) (Some l') w =
          (case unlink t w of Inl e \<Rightarrow> Inl e | Inr w' \<Rightarrow> Inr (True, w'))"
    using Cons.IH[OF l'(3)] Cons.prems k by auto
  then show ?case using Cons.prems l' nd k by auto
qed

lemma removeSibling_miss:
  assumes "ring_at (heap w) self ys" "t \<notin> Some ` set ys" "length ys < k"
  shows "removeSibling k self t w = Inr (False, w)"
proof -
  from assms(1) obtain n where n: "nxt (heap w) self = Some n" "path (nxt (heap w)) n ys self"
    and d: "self \<notin> set ys" by (auto simp: ring_at_def split: option.splits)
  from nxt_alloc[OF n(1)] obtain nd where nd: "heap w self = Some nd" "link_next nd = Some n" by blast
  show ?thesis using walk_miss[OF n(2) d assms(2,3)] nd by (simp add: removeSibling_def)
qed

lemma removeSibling_hit:
  assumes "ring_at (heap w) self (as @ t # bs)" "length as < k"
  shows "removeSibling k self (Some t) w =
          (case unlink t w of Inl e \<Rightarrow> Inl e | Inr w' \<Rightarrow> Inr (True, w'))"
proof -
  from assms(1) obtain n where n: "nxt (heap w) self = Some n" "path (nxt (heap w)) n (as @ t # bs) self"
    and d: "self \<notin> set as" "t \<notin> set as" "t \<noteq> self" by (auto simp: ring_at_def split: option.splits)
  from n(2) have p: "path (nxt (heap w)) n as t" unfolding path_append by auto
  from nxt_alloc[OF n(1)] obtain nd where nd: "heap w self = Some nd" "link_next nd = Some n" by blast
  show ?thesis using walk_hit[OF p d assms(2)] nd by (simp add: removeSibling_def)
qed

subsection \<open>connect, unlink and remove keep the ring\<close>

lemma butlast_distinct_last:
  assumes "distinct us" "y \<in> set (butlast us)"
  shows "y \<noteq> last us \<and> y \<in> set us"
proof -
  from assms(2) have ne: "us \<noteq> []" by auto
  then have "us = butlast us @ [last us]" by simp
  then have "distinct (butlast us @ [last us])" using assms(1) by simp
  then show ?thesis using assms(2) by (auto dest: in_set_butlastD)
qed

lemma payload_refCount:
  "map_option payload x = map_option payload y \<Longrightarrow> map_option refCount x = map_option refCount y"
  by (cases x; cases y) (auto simp: payload_def)

lemma connect_ring:
  assumes "ring_ok w s xs"
  shows "\<exists>H. connect cb w = Inr (Some (fresh w), w\<lparr>heap := H, fresh := fresh w + 1\<rparr>)
            \<and> ring_ok (w\<lparr>heap := H, fresh := fresh w + 1\<rparr>) s (xs @ [fresh w])
            \<and> H (fresh w) = Some \<lparr>link_next = Some s, link_prev = Some (last (s # xs)),
                 callbackFunc = cb, refCount = 1, enabled = uninit w (fresh w)\<rparr>
            \<and> (\<forall>y. y \<noteq> fresh w \<longrightarrow> map_option payload (H y) = map_option payload (heap w y))"
proof -
  let ?a = "fresh w" and ?l = "last (s # xs)" and ?h = "heap w"
  from assms have ring: "callbackRing w = Some s" and at: "ring_at ?h s xs"
    and rs: "map_option refCount (?h s) = Some 2"
    and rx: "list_all (\<lambda>x. map_option refCount (?h x) = Some 1) xs"
    and fr: "list_all (\<lambda>x. x < ?a) (s # xs)" by (auto simp: ring_ok_def)
  have lin: "?l \<in> set (s # xs)" by (metis last_in_set list.distinct(1))
  from prv_alloc[OF ring_at_prv_s[OF at]] obtain nds where nds: "?h s = Some nds" "link_prev nds = Some ?l"
    by blast
  from ring_at_alloc[OF at lin] obtain ndl where ndl: "?h ?l = Some ndl" by blast
  have fresh: "?a \<noteq> s" "?a \<noteq> ?l" "?a \<notin> set (s # xs)"
    using fr lin by (auto simp: list_all_iff simp del: last.simps)
  from addBefore_effect[OF nds ndl fresh(1,2), of cb] obtain H where
    H: "addBefore s cb w = Inr (?a, w\<lparr>heap := H, fresh := ?a + 1\<rparr>)"
       "H ?a = Some \<lparr>link_next = Some s, link_prev = Some ?l, callbackFunc = cb,
                                   refCount = 1, enabled = uninit w ?a\<rparr>"
       "nxt H = (nxt ?h)(?a := Some s, ?l := Some ?a)"
       "prv H = (prv ?h)(?a := Some ?l, s := Some ?a)"
       "\<forall>y. y \<noteq> ?a \<longrightarrow> map_option payload (H y) = map_option payload (?h y)" by blast
  have c: "connect cb w = Inr (Some ?a, w\<lparr>heap := H, fresh := ?a + 1\<rparr>)"
    using ring H(1) by (simp add: connect_def ensureRing_def)
  from at have d: "distinct (s # xs)" and pn: "path (nxt ?h) s (s # xs) s"
    and pp: "path (prv ?h) s (s # rev xs) s" by (auto simp: ring_at_def)
  have bl: "\<And>y. y \<in> set (butlast (s # xs)) \<Longrightarrow> nxt H y = nxt ?h y"
    using butlast_distinct_last[OF d] fresh(3) unfolding H(3) by (metis fun_upd_other)
  have pn': "path (nxt H) s ((s # xs) @ [?a]) s"
    by (rule path_extend[OF pn _ fresh(3) d]) (use fresh bl in \<open>auto simp: H(3) simp del: last.simps butlast.simps\<close>)
  from pp obtain y where y: "prv ?h s = Some y" "path (prv ?h) y (rev xs) s"
    by (auto split: option.splits)
  have yl: "y = ?l" using y(1) ring_at_prv_s[OF at] by simp
  have "path (prv H) y (rev xs) s"
    using y(2) d fresh by (subst path_cong[where F="prv ?h"]) (auto simp: H(4))
  then have pp': "path (prv H) s (s # rev (xs @ [?a])) s"
    using yl fresh by (auto simp: H(4) simp del: last.simps)
  have at': "ring_at H s (xs @ [?a])"
    using d fresh pn' pp' by (auto simp: ring_at_def)
  have rc: "\<And>y. y \<noteq> ?a \<Longrightarrow> map_option refCount (H y) = map_option refCount (?h y)"
    using H(5) payload_refCount by blast
  have rs': "map_option refCount (H s) = Some 2" using rc[of s] rs fresh by simp
  have "\<forall>x\<in>set xs. map_option refCount (H x) = Some 1"
    using rx rc fresh(3) unfolding list_all_iff by (metis list.set_intros(2))
  then have rx': "list_all (\<lambda>x. map_option refCount (H x) = Some 1) (xs @ [?a])"
    by (simp add: list_all_iff H(2))
  have fr': "list_all (\<lambda>x. x < ?a + 1) (s # xs @ [?a])"
    using fr by (auto simp: list_all_iff)
  have "ring_ok (w\<lparr>heap := H, fresh := ?a + 1\<rparr>) s (xs @ [?a])"
    using ring at' rs' rx' fr' by (simp add: ring_ok_def)
  then show ?thesis using c H(2,5) by blast
qed

lemma unlink_ring_at:
  assumes "ring_at (heap w) s (as @ x # bs)" "map_option refCount (heap w x) = Some 1"
  shows "\<exists>H. unlink x w = Inr (w\<lparr>heap := H\<rparr>)
            \<and> ring_at H s (as @ bs) \<and> H x = None
            \<and> (\<forall>y. y \<noteq> x \<longrightarrow> map_option payload (H y) = map_option payload (heap w y))"
proof -
  let ?h = "heap w"
  define p where "p = last (s # as)"
  define n where "n = hd (bs @ [s])"
  note at = assms(1)
  from at have d: "distinct (s # as @ x # bs)" and pn: "path (nxt ?h) s ((s # as) @ x # bs) s"
    and pp: "path (prv ?h) s ((s # rev bs) @ x # rev as) s" by (auto simp: ring_at_def)
  have dsa: "distinct (s # as)" and dsb: "distinct (s # rev bs)" using d by auto
  have pin: "p \<in> set (s # as)" unfolding p_def by (metis last_in_set list.distinct(1))
  have nin: "n \<in> set (s # bs)" unfolding n_def by (cases bs) auto
  have xp: "x \<noteq> p" using d pin by auto
  have xn: "x \<noteq> n" using d nin by auto
  from nxt_alloc[OF ring_at_nxt[OF at]] prv_alloc[OF ring_at_prv[OF at]]
  obtain nd where nd: "?h x = Some nd" "link_next nd = Some n" "link_prev nd = Some p"
    unfolding p_def n_def by auto
  from ring_at_alloc[OF at, of n] nin obtain ndn where ndn: "?h n = Some ndn" by auto
  from ring_at_alloc[OF at, of p] pin obtain ndp where ndp: "?h p = Some ndp" by auto
  have r1: "refCount nd = 1" using assms(2) nd by simp
  from unlink_effect[OF nd xn xp ndn ndp r1] obtain H where
    H: "unlink x w = Inr (w\<lparr>heap := H\<rparr>)" "H x = None"
       "nxt H = (nxt ?h)(p := Some n, x := None)"
       "prv H = (prv ?h)(n := Some p, x := None)"
       "\<forall>y. y \<noteq> x \<longrightarrow> map_option payload (H y) = map_option payload (?h y)" by blast
  have bl: "nxt H y = nxt ?h y" if y: "y \<in> set (butlast (s # as)) \<union> set bs" for y
  proof -
    from y consider "y \<in> set (butlast (s # as))" | "y \<in> set bs" by blast
    then have "y \<noteq> p \<and> y \<noteq> x"
    proof cases
      case 1
      from butlast_distinct_last[OF dsa 1] have "y \<noteq> p" "y \<in> set (s # as)" unfolding p_def by blast+
      then show ?thesis using d by auto
    next
      case 2
      then show ?thesis using d pin by auto
    qed
    then show ?thesis by (simp add: H(3))
  qed
  have "path (nxt H) s ((s # as) @ bs) s"
  proof (rule path_cut[OF pn])
    show "distinct ((s # as) @ x # bs)" using d by simp
    show "s # as \<noteq> []" by simp
    show "nxt H (last (s # as)) = Some (hd (bs @ [s]))"
      unfolding p_def[symmetric] n_def[symmetric] using xp by (simp add: H(3))
    show "\<And>y. y \<in> set (butlast (s # as)) \<union> set bs \<Longrightarrow> nxt H y = nxt ?h y" by (rule bl)
  qed
  then have pn': "path (nxt H) s (s # as @ bs) s" by simp
  have ln: "last (s # rev bs) = n" unfolding n_def by (cases bs) auto
  have hp: "hd (rev as @ [s]) = p" unfolding p_def by (cases as rule: rev_cases) auto
  have bl2: "prv H y = prv ?h y" if y: "y \<in> set (butlast (s # rev bs)) \<union> set (rev as)" for y
  proof -
    from y consider "y \<in> set (butlast (s # rev bs))" | "y \<in> set as" by auto
    then have "y \<noteq> n \<and> y \<noteq> x"
    proof cases
      case 1
      from butlast_distinct_last[OF dsb 1] have "y \<noteq> n" "y \<in> set (s # rev bs)" unfolding ln by blast+
      then show ?thesis using d by auto
    next
      case 2
      then show ?thesis using d nin by auto
    qed
    then show ?thesis by (simp add: H(4))
  qed
  have "path (prv H) s ((s # rev bs) @ rev as) s"
  proof (rule path_cut[OF pp])
    show "distinct ((s # rev bs) @ x # rev as)" using d by auto
    show "s # rev bs \<noteq> []" by simp
    show "prv H (last (s # rev bs)) = Some (hd (rev as @ [s]))" unfolding ln hp using xn by (simp add: H(4))
    show "\<And>y. y \<in> set (butlast (s # rev bs)) \<union> set (rev as) \<Longrightarrow> prv H y = prv ?h y" by (rule bl2)
  qed
  then have pp': "path (prv H) s (s # rev (as @ bs)) s" by simp
  have at': "ring_at H s (as @ bs)" using d pn' pp' unfolding ring_at_def by auto
  show ?thesis using H(1,2,5) at' by blast
qed

lemma unlink_ring:
  assumes "ring_ok w s (as @ x # bs)"
  shows "\<exists>H. unlink x w = Inr (w\<lparr>heap := H\<rparr>)
            \<and> ring_ok (w\<lparr>heap := H\<rparr>) s (as @ bs) \<and> H x = None
            \<and> (\<forall>y. y \<noteq> x \<longrightarrow> map_option payload (H y) = map_option payload (heap w y))"
proof -
  let ?h = "heap w"
  from assms have ring: "callbackRing w = Some s" and at: "ring_at ?h s (as @ x # bs)"
    and rs: "map_option refCount (?h s) = Some 2"
    and rx: "list_all (\<lambda>x. map_option refCount (?h x) = Some 1) (as @ x # bs)"
    and fr: "list_all (\<lambda>x. x < fresh w) (s # as @ x # bs)" by (auto simp: ring_ok_def)
  from at have d: "distinct (s # as @ x # bs)" by (simp add: ring_at_def)
  have "map_option refCount (?h x) = Some 1" using rx by (simp add: list_all_iff)
  from unlink_ring_at[OF at this] obtain H where
    H: "unlink x w = Inr (w\<lparr>heap := H\<rparr>)" "ring_at H s (as @ bs)" "H x = None"
       "\<forall>y. y \<noteq> x \<longrightarrow> map_option payload (H y) = map_option payload (?h y)" by blast
  note at' = H(2)
  have rc: "\<And>y. y \<noteq> x \<Longrightarrow> map_option refCount (H y) = map_option refCount (?h y)"
    using H(4) payload_refCount by blast
  have rs': "map_option refCount (H s) = Some 2" using rc[of s] rs d by auto
  have "\<forall>y\<in>set (as @ bs). map_option refCount (H y) = Some 1"
  proof
    fix y assume y: "y \<in> set (as @ bs)"
    then have "y \<noteq> x" using d by auto
    moreover have "map_option refCount (?h y) = Some 1" using rx y by (auto simp: list_all_iff)
    ultimately show "map_option refCount (H y) = Some 1" using rc by simp
  qed
  then have rx': "list_all (\<lambda>x. map_option refCount (H x) = Some 1) (as @ bs)"
    by (simp add: list_all_iff)
  have fr': "list_all (\<lambda>x. x < fresh w) (s # as @ bs)" using fr by (auto simp: list_all_iff)
  have "ring_ok (w\<lparr>heap := H\<rparr>) s (as @ bs)"
    using ring at' rs' rx' fr' by (simp add: ring_ok_def)
  then show ?thesis using H(1,3,4) by blast
qed

lemma removeSibling_walk:
  assumes "nxt (heap w) self = Some l" "path (nxt (heap w)) l ys t"
    and "self \<notin> set ys" "t \<notin> set ys" "t \<noteq> self" "length ys < k"
  shows "removeSibling k self (Some t) w =
          (case unlink t w of Inl e \<Rightarrow> Inl e | Inr w' \<Rightarrow> Inr (True, w'))"
proof -
  from nxt_alloc[OF assms(1)] obtain nd where nd: "heap w self = Some nd" "link_next nd = Some l" by blast
  show ?thesis using walk_hit[OF assms(2-6)] nd by (simp add: removeSibling_def)
qed

lemma removeLink_ring_unlink:
  assumes "ring_at (heap w) s (as @ x # bs)" "length (as @ bs) < k"
  shows "removeLink k x w = (case unlink x w of Inl e \<Rightarrow> Inl e | Inr w' \<Rightarrow> Inr (True, w'))"
proof -
  let ?F = "nxt (heap w)"
  define n where "n = hd (bs @ [s])"
  from assms have d: "distinct (s # as @ x # bs)" and pn: "path ?F s ((s # as) @ x # bs) s"
    by (auto simp: ring_at_def)
  have xn: "?F x = Some n" unfolding n_def by (rule ring_at_nxt[OF assms(1)])
  from nxt_alloc[OF xn] obtain nd where nd: "heap w x = Some nd" "link_next nd = Some n" by blast
  from pn have p1: "path ?F s (s # as) x" and p2: "path ?F n bs s"
    using xn unfolding path_append by (auto split: option.splits)
  have "path ?F n (bs @ s # as) x" unfolding path_append using p1 p2 by blast
  moreover have cyc: "bs @ s # as = n # tl (bs @ [s]) @ as" unfolding n_def by (cases bs) auto
  ultimately obtain l where l: "?F n = Some l" "path ?F l (tl (bs @ [s]) @ as) x"
    by (auto split: option.splits)
  have dn: "distinct (n # tl (bs @ [s]) @ as)" using d unfolding cyc[symmetric] by auto
  have nx: "n \<noteq> x" and xin: "x \<notin> set (tl (bs @ [s]) @ as)"
    using d unfolding n_def by (cases bs; auto)+
  have len: "length (tl (bs @ [s]) @ as) < k" using assms(2) by simp
  have "removeSibling k n (Some x) w =
          (case unlink x w of Inl e \<Rightarrow> Inl e | Inr w' \<Rightarrow> Inr (True, w'))"
    by (rule removeSibling_walk[OF l]) (use dn nx xin len in auto)
  then show ?thesis using nd by (simp add: removeLink_def)
qed

lemma removeLink_ring:
  assumes "ring_ok w s (as @ x # bs)" "length (as @ bs) < k"
  shows "\<exists>H. removeLink k x w = Inr (True, w\<lparr>heap := H\<rparr>)
            \<and> ring_ok (w\<lparr>heap := H\<rparr>) s (as @ bs) \<and> H x = None
            \<and> (\<forall>y. y \<noteq> x \<longrightarrow> map_option payload (H y) = map_option payload (heap w y))"
proof -
  from assms(1) have at: "ring_at (heap w) s (as @ x # bs)" by (simp add: ring_ok_def)
  from unlink_ring[OF assms(1)] removeLink_ring_unlink[OF at assms(2)]
  show ?thesis by auto
qed

subsection \<open>The emission loop walks the ring\<close>

lemma incref_bump:
  "heap w a = Some nd \<Longrightarrow> 0 \<le> refCount nd \<Longrightarrow> refCount nd < 2147483647
     \<Longrightarrow> incref a w = Inr (w\<lparr>heap := bump (heap w) a\<rparr>)"
  by (simp add: incref_def bump_def wrap32_id)

lemma decref_bump:
  "h a = Some nd \<Longrightarrow> refCount nd \<in> {1..<2147483647} \<Longrightarrow> heap w = bump h a
     \<Longrightarrow> decref a w = Inr (w\<lparr>heap := h\<rparr>)"
  by (auto simp: decref_def bump_def fun_upd_idem wrap32_id)

lemma bump_comm: "bump (bump h a) b = bump (bump h b) a"
  by (auto simp: bump_def fun_eq_iff split: option.splits)

lemma bump_lookup:
  "h x = Some nd \<Longrightarrow> \<exists>nd'. bump h a x = Some nd' \<and> link_next nd' = link_next nd \<and> enabled nd' = enabled nd
      \<and> callbackFunc nd' = callbackFunc nd \<and> refCount nd \<le> refCount nd' \<and> refCount nd' \<le> refCount nd + 1"
  by (cases "x = a") (auto simp: bump_def split: option.splits)

lemma emit_advance:
  assumes "h0 y = Some nd" "refCount nd \<in> {1..<2147483646}" "h0 z = Some ndz" "refCount ndz \<in> {1..<2147483646}"
    and "heap w = bump h0 y"
  shows "\<exists>w2. incref z w = Inr w2 \<and> decref y w2 = Inr (w\<lparr>heap := bump h0 z\<rparr>)"
proof -
  from bump_lookup[of h0 z ndz y, OF assms(3)] assms(4,5) obtain ndz' where
    z': "heap w z = Some ndz'" "0 \<le> refCount ndz'" "refCount ndz' < 2147483647" by auto
  have i: "incref z w = Inr (w\<lparr>heap := bump (bump h0 z) y\<rparr>)"
    using incref_bump[OF z'] assms(5) bump_comm[of h0 y z] by simp
  from bump_lookup[of h0 y nd z, OF assms(1)] assms(2) obtain nd' where
    y': "bump h0 z y = Some nd'" "refCount nd' \<in> {1..<2147483647}" by auto
  have "decref y (w\<lparr>heap := bump (bump h0 z) y\<rparr>) = Inr (w\<lparr>heap := bump (bump h0 z) y\<rparr>\<lparr>heap := bump h0 z\<rparr>)"
    by (rule decref_bump[of "bump h0 z" y nd', OF y']) simp
  then show ?thesis using i by simp
qed

lemma emit_loop_unfold:
  assumes "h0 y = Some nd" "refCount nd \<in> {1..<2147483646}" "pure_at h0 y" "link_next nd = Some z"
    and "h0 z = Some ndz" "refCount ndz \<in> {1..<2147483646}" "heap w = bump h0 y"
  shows "emit_loop (Suc k) kw C args s y cs w =
     (case callbackFunc nd of
        None \<Rightarrow> emit_next k kw C args s z cs (w\<lparr>heap := bump h0 z\<rparr>)
      | Some c \<Rightarrow>
          if enabled nd
          then (case c_call C cs (cb_fun c args) of
                  (cs', cont) \<Rightarrow>
                    if cont
                    then emit_next k kw C args s z cs' (w\<lparr>heap := bump h0 z, trace := trace w @ [y]\<rparr>)
                    else Inr (cs', y, w\<lparr>trace := trace w @ [y]\<rparr>))
          else emit_next k kw C args s z cs (w\<lparr>heap := bump h0 z\<rparr>))"
proof -
  from bump_lookup[of h0 y nd y, OF assms(1)] assms(7) obtain nd' where
    y': "heap w y = Some nd'" "link_next nd' = link_next nd" "enabled nd' = enabled nd"
        "callbackFunc nd' = callbackFunc nd" by auto
  from emit_advance[OF assms(1,2,5,6,7)] obtain w2 where
    a: "incref z w = Inr w2" "decref y w2 = Inr (w\<lparr>heap := bump h0 z\<rparr>)" by blast
  let ?w1 = "w\<lparr>trace := trace w @ [y]\<rparr>"
  have h1: "heap ?w1 = bump h0 y" using assms(7) by simp
  from emit_advance[OF assms(1,2,5,6) h1] obtain w2' where
    a0: "incref z ?w1 = Inr w2'" "decref y w2' = Inr (?w1\<lparr>heap := bump h0 z\<rparr>)" by blast
  have "?w1\<lparr>heap := bump h0 z\<rparr> = w\<lparr>heap := bump h0 z, trace := trace w @ [y]\<rparr>" by simp
  with a0 have a': "incref z ?w1 = Inr w2'"
     "decref y w2' = Inr (w\<lparr>heap := bump h0 z, trace := trace w @ [y]\<rparr>)" by simp_all
  show ?thesis
  proof (cases "callbackFunc nd")
    case None
    then show ?thesis using y' a assms(4) by (simp add: emit_next_def)
  next
    case (Some c)
    then have pc: "cb_acts c = []" using assms(1,3) by (simp add: pure_at_def)
    show ?thesis
    proof (cases "enabled nd")
      case False
      then show ?thesis using Some y' a assms(4) by (simp add: emit_next_def)
    next
      case True
      obtain cs' cont where cc: "c_call C cs (cb_fun c args) = (cs', cont)" by (cases "c_call C cs (cb_fun c args)")
      have inv: "invoke kw C cs y c args w = Inr (cont, cs', ?w1)"
        using pc cc by (simp add: invoke_def)
      show ?thesis using True Some y' a' assms(4) inv cc by (simp add: emit_next_def)
    qed
  qed
qed

lemma emit_loop_ring:
  assumes "path (nxt h0) y (y # ys) s" "s \<notin> set ys"
    and "\<forall>x\<in>set (s # y # ys). \<exists>nd. h0 x = Some nd \<and> refCount nd \<in> {1..<2147483646}"
    and "\<forall>x\<in>set (y # ys). pure_at h0 x"
    and "length ys < k" "heap w = bump h0 y"
  shows "\<exists>l. emit_loop k kw C args s y cs w =
            Inr (fst (collect C args h0 (y # ys) cs), l,
                 w\<lparr>heap := bump h0 l, trace := trace w @ snd (collect C args h0 (y # ys) cs)\<rparr>)
          \<and> (\<exists>nd. h0 l = Some nd \<and> refCount nd \<in> {1..<2147483646})"
  using assms
proof (induction ys arbitrary: y cs w k)
  case Nil
  then obtain k' where k: "k = Suc k'" by (cases k) auto
  from Nil.prems(1) have ny: "nxt h0 y = Some s" by (auto split: option.splits)
  from nxt_alloc[OF ny] Nil.prems(3)
  obtain nd where nd: "h0 y = Some nd" "refCount nd \<in> {1..<2147483646}" "link_next nd = Some s" by auto
  from Nil.prems obtain nds where nds: "h0 s = Some nds" "refCount nds \<in> {1..<2147483646}" by auto
  have py: "pure_at h0 y" using Nil.prems by simp
  note u = emit_loop_unfold[OF nd(1,2) py nd(3) nds Nil.prems(6), of k' kw C args s cs]
  show ?case unfolding k u using nd nds
    by (auto simp: emit_next_def Nil.prems(6)[symmetric] split: option.splits prod.splits)
next
  case (Cons z zs)
  then obtain k' where k: "k = Suc k'" by (cases k) auto
  from Cons.prems(1) have ny: "nxt h0 y = Some z" and pz: "path (nxt h0) z (z # zs) s"
    by (auto split: option.splits)
  from nxt_alloc[OF ny] Cons.prems(3)
  obtain nd where nd: "h0 y = Some nd" "refCount nd \<in> {1..<2147483646}" "link_next nd = Some z" by auto
  from Cons.prems obtain ndz where ndz: "h0 z = Some ndz" "refCount ndz \<in> {1..<2147483646}" by auto
  have py: "pure_at h0 y" using Cons.prems by simp
  have zs: "z \<noteq> s" using Cons.prems by auto
  have IH: "\<exists>l. emit_loop k' kw C args s z cs1 w1 =
            Inr (fst (collect C args h0 (z # zs) cs1), l,
                 w1\<lparr>heap := bump h0 l, trace := trace w1 @ snd (collect C args h0 (z # zs) cs1)\<rparr>)
          \<and> (\<exists>nd. h0 l = Some nd \<and> refCount nd \<in> {1..<2147483646})" if "heap w1 = bump h0 z" for cs1 w1
    by (rule Cons.IH[OF pz _ _ _ _ that]) (use Cons.prems k in auto)
  note u = emit_loop_unfold[OF nd(1,2) py nd(3) ndz Cons.prems(6), of k' kw C args s cs]
  show ?case
  proof (cases "callbackFunc nd")
    case None
    from IH[of "w\<lparr>heap := bump h0 z\<rparr>" cs] show ?thesis
      unfolding k u using None nd zs by (auto simp: emit_next_def)
  next
    case (Some c)
    show ?thesis
    proof (cases "enabled nd")
      case False
      from IH[of "w\<lparr>heap := bump h0 z\<rparr>" cs] show ?thesis
        unfolding k u using Some False nd zs by (auto simp: emit_next_def)
    next
      case True
      obtain cs' cont where cc: "c_call C cs (cb_fun c args) = (cs', cont)"
        by (cases "c_call C cs (cb_fun c args)")
      from IH[of "w\<lparr>heap := bump h0 z, trace := trace w @ [y]\<rparr>" cs'] show ?thesis
        unfolding k u using Some True nd zs cc
        by (auto simp: emit_next_def Cons.prems(6)[symmetric] split: prod.splits)
    qed
  qed
qed

lemma emit_ring:
  assumes "ring_ok w s xs" "\<forall>x\<in>set (s # xs). pure_at (heap w) x" "length xs < k"
  shows "emit k C args w =
           Inr (c_result C (fst (collect C args (heap w) (s # xs) (c_init C))),
                w\<lparr>trace := trace w @ snd (collect C args (heap w) (s # xs) (c_init C))\<rparr>)"
proof -
  let ?h = "heap w"
  from assms(1) have ring: "callbackRing w = Some s" and at: "ring_at ?h s xs"
    and rs: "map_option refCount (?h s) = Some 2"
    and rx: "list_all (\<lambda>x. map_option refCount (?h x) = Some 1) xs" by (auto simp: ring_ok_def)
  from at have d: "s \<notin> set xs" and pn: "path (nxt ?h) s (s # xs) s" by (auto simp: ring_at_def)
  have al: "\<forall>x\<in>set (s # s # xs). \<exists>nd. ?h x = Some nd \<and> refCount nd \<in> {1..<2147483646}"
    using rs rx by (auto simp: list_all_iff)
  then obtain nds where nds: "?h s = Some nds" "refCount nds \<in> {1..<2147483646}" by auto
  have i: "incref s w = Inr (w\<lparr>heap := bump ?h s\<rparr>)" using incref_bump[OF nds(1)] nds(2) by simp
  from emit_loop_ring[OF pn d al assms(2,3), of "w\<lparr>heap := bump ?h s\<rparr>" k C args "c_init C"]
  obtain l nd where l: "emit_loop k k C args s s (c_init C) (w\<lparr>heap := bump ?h s\<rparr>) =
            Inr (fst (collect C args ?h (s # xs) (c_init C)), l,
                 w\<lparr>heap := bump ?h l, trace := trace w @ snd (collect C args ?h (s # xs) (c_init C))\<rparr>)"
     "?h l = Some nd" "refCount nd \<in> {1..<2147483647}" by auto
  have "decref l (w\<lparr>heap := bump ?h l, trace := trace w @ snd (collect C args ?h (s # xs) (c_init C))\<rparr>)
        = Inr (w\<lparr>heap := bump ?h l, trace := trace w @ snd (collect C args ?h (s # xs) (c_init C))\<rparr>\<lparr>heap := ?h\<rparr>)"
    by (rule decref_bump[of ?h l nd, OF l(2,3)]) simp
  then show ?thesis using ring i l(1) by (simp add: emit_def)
qed

subsection \<open>Materialising, toggling and destroying the ring\<close>

lemma ensureRing_fresh:
  assumes "callbackRing w = None"
  shows "ensureRing w =
           Inr (w\<lparr>heap := (heap w)(fresh w \<mapsto>
                   \<lparr>link_next = Some (fresh w), link_prev = Some (fresh w), callbackFunc = None,
                    refCount = 2, enabled = uninit w (fresh w)\<rparr>),
                 fresh := fresh w + 1, callbackRing := Some (fresh w)\<rparr>)"
  using assms by (simp add: ensureRing_def prim_defs)

lemma ring_ok_single:
  assumes "callbackRing w = Some s" "heap w s = Some nd" "link_next nd = Some s"
    "link_prev nd = Some s" "refCount nd = 2" "s < fresh w"
  shows "ring_ok w s []"
  using assms by (simp add: ring_ok_def ring_at_def nxt_def prv_def)

lemma ensureRing_ring:
  assumes "callbackRing w = None"
  shows "\<exists>w1. ensureRing w = Inr w1 \<and> ring_ok w1 (fresh w) [] \<and> sentinel_slot w1 = None
           \<and> heap w1 = (heap w)(fresh w \<mapsto>
                   \<lparr>link_next = Some (fresh w), link_prev = Some (fresh w), callbackFunc = None,
                    refCount = 2, enabled = uninit w (fresh w)\<rparr>)
           \<and> trace w1 = trace w \<and> uninit w1 = uninit w \<and> fresh w1 = fresh w + 1
           \<and> callbackRing w1 = Some (fresh w)"
  unfolding ensureRing_fresh[OF assms]
  by (auto intro!: ring_ok_single simp: sentinel_slot_def)

lemma ensureRing_idle: "callbackRing w = Some s \<Longrightarrow> ensureRing w = Inr w"
  by (simp add: ensureRing_def)

lemma connect_via_ensure: "ensureRing w = Inr w1 \<Longrightarrow> callbackRing w1 \<noteq> None \<Longrightarrow> connect cb w = connect cb w1"
  by (cases "callbackRing w1") (auto simp: connect_def ensureRing_idle)

lemma setEnabled_ring:
  assumes "ring_ok w s xs" "x \<in> set (s # xs)"
  shows "\<exists>nd. heap w x = Some nd \<and> setEnabled x flag w = Inr (w\<lparr>heap := (heap w)(x \<mapsto> nd\<lparr>enabled := flag\<rparr>)\<rparr>)
           \<and> ring_ok (w\<lparr>heap := (heap w)(x \<mapsto> nd\<lparr>enabled := flag\<rparr>)\<rparr>) s xs"
proof -
  from assms(1) have at: "ring_at (heap w) s xs" by (simp add: ring_ok_def)
  from ring_at_alloc[OF at assms(2)] obtain nd where nd: "heap w x = Some nd" by blast
  let ?H = "(heap w)(x \<mapsto> nd\<lparr>enabled := flag\<rparr>)"
  have n: "nxt ?H = nxt (heap w)" and p: "prv ?H = prv (heap w)"
    using nd by (auto simp: nxt_def prv_def fun_eq_iff)
  have rc: "\<And>y. map_option refCount (?H y) = map_option refCount (heap w y)"
    using nd by auto
  have at': "ring_at ?H s xs" using at unfolding ring_at_def n p .
  have "ring_ok (w\<lparr>heap := ?H\<rparr>) s xs"
    using assms(1) at' unfolding ring_ok_def by (simp add: rc del: fun_upd_apply)
  then show ?thesis using nd by (simp add: setEnabled_def)
qed



subsection \<open>The invariant of a client that does not re-enter\<close>

lemma payload_fields:
  "map_option payload x = map_option payload y \<Longrightarrow>
     map_option callbackFunc x = map_option callbackFunc y \<and> map_option enabled x = map_option enabled y
     \<and> map_option refCount x = map_option refCount y \<and> (x = None \<longleftrightarrow> y = None)"
  by (cases x; cases y) (auto simp: payload_def)

lemma pure_at_payload:
  "map_option payload (H y) = map_option payload (h y) \<Longrightarrow> pure_at H y = pure_at h y"
  by (cases "H y"; cases "h y") (auto simp: pure_at_def payload_def)

lemma active_payload:
  "map_option payload (H y) = map_option payload (h y) \<Longrightarrow> active H y = active h y"
  by (cases "H y"; cases "h y") (auto simp: active_def payload_def)

lemma sentinel_slot_payload:
  "callbackRing w' = callbackRing w \<Longrightarrow> callbackRing w = Some s
    \<Longrightarrow> map_option payload (heap w' s) = map_option payload (heap w s)
    \<Longrightarrow> sentinel_slot w' = sentinel_slot w"
  by (cases "heap w' s"; cases "heap w s") (auto simp: sentinel_slot_def payload_def)

lemma connect_inv:
  assumes "signal_inv m s w xs" "pure_cb cb"
  shows "\<exists>w'. connect cb w = Inr (Some (fresh w'  - 1), w') \<and> signal_inv m s w' (xs @ [fresh w' - 1])
          \<and> fresh w' - 1 \<notin> set (s # xs)
          \<and> trace w' = trace w \<and> uninit w' = uninit w
          \<and> heap w' (fresh w' - 1) = Some \<lparr>link_next = Some s, link_prev = Some (last (s # xs)),
                 callbackFunc = cb, refCount = 1, enabled = uninit w (fresh w' - 1)\<rparr>
          \<and> (\<forall>y\<in>set xs. map_option payload (heap w' y) = map_option payload (heap w y))"
proof -
  have main: "\<exists>w'. connect cb w1 = Inr (Some (fresh w1), w') \<and> signal_inv m s w' (xs @ [fresh w1])
          \<and> fresh w1 \<notin> set (s # xs) \<and> fresh w' = fresh w1 + 1
          \<and> trace w' = trace w1 \<and> uninit w' = uninit w1
          \<and> heap w' (fresh w1) = Some \<lparr>link_next = Some s, link_prev = Some (last (s # xs)),
                 callbackFunc = cb, refCount = 1, enabled = uninit w1 (fresh w1)\<rparr>
          \<and> (\<forall>y\<in>set (s # xs). map_option payload (heap w' y) = map_option payload (heap w1 y))"
    if inv: "callbackRing w1 = Some s" "ring_ok w1 s xs" "sentinel_slot w1 = m"
          "map_option enabled (heap w1 s) = Some (uninit w1 s)"
          "\<forall>x. x \<notin> set (s # xs) \<longrightarrow> heap w1 x = None"
          "list_all (pure_at (heap w1)) (s # xs)" for w1
  proof -
    let ?a = "fresh w1"
    from connect_ring[OF inv(2), of cb] obtain H where
      H: "connect cb w1 = Inr (Some ?a, w1\<lparr>heap := H, fresh := ?a + 1\<rparr>)"
         "ring_ok (w1\<lparr>heap := H, fresh := ?a + 1\<rparr>) s (xs @ [?a])"
         "H ?a = Some \<lparr>link_next = Some s, link_prev = Some (last (s # xs)),
                 callbackFunc = cb, refCount = 1, enabled = uninit w1 ?a\<rparr>"
         "\<forall>y. y \<noteq> ?a \<longrightarrow> map_option payload (H y) = map_option payload (heap w1 y)" by blast
    let ?w' = "w1\<lparr>heap := H, fresh := ?a + 1\<rparr>"
    have fr: "?a \<notin> set (s # xs)" using inv(2) by (auto simp: ring_ok_def list_all_iff)
    have pl: "\<forall>y\<in>set (s # xs). map_option payload (H y) = map_option payload (heap w1 y)"
    proof
      fix y assume "y \<in> set (s # xs)"
      then have "y \<noteq> ?a" using fr by blast
      then show "map_option payload (H y) = map_option payload (heap w1 y)" using H(4) by blast
    qed
    have sl: "sentinel_slot ?w' = m"
      using sentinel_slot_payload[of ?w' w1 s] inv(1,3) pl by simp
    have en: "map_option enabled (H s) = Some (uninit w1 s)"
      using pl inv(4) payload_fields[of "H s" "heap w1 s"] by simp
    have none: "\<forall>x. x \<notin> set (s # xs @ [?a]) \<longrightarrow> H x = None"
    proof (intro allI impI)
      fix x assume x: "x \<notin> set (s # xs @ [?a])"
      then have "heap w1 x = None" using inv(5) by auto
      moreover have "x \<noteq> ?a" using x by auto
      ultimately show "H x = None" using H(4) payload_fields[of "H x" "heap w1 x"] by simp
    qed
    have pa: "pure_at H ?a" using H(3) assms(2) by (simp add: pure_at_def pure_cb_def split: option.splits)
    have "\<forall>y\<in>set (s # xs). pure_at H y"
      using pl inv(6) pure_at_payload[of H _ "heap w1"] by (auto simp: list_all_iff)
    then have pu: "list_all (pure_at H) (s # xs @ [?a])" using pa by (auto simp: list_all_iff)
    have "signal_inv m s ?w' (xs @ [?a])"
      using inv(1) H(2) sl en none pu by (simp add: signal_inv_def)
    then show ?thesis using H(1,3) fr pl by (intro exI[of _ ?w']) simp
  qed
  show ?thesis
  proof (cases "callbackRing w")
    case (Some r)
    with assms(1) have "callbackRing w = Some s" "ring_ok w s xs" "sentinel_slot w = m"
          "map_option enabled (heap w s) = Some (uninit w s)"
          "\<forall>x. x \<notin> set (s # xs) \<longrightarrow> heap w x = None"
          "list_all (pure_at (heap w)) (s # xs)" by (auto simp: signal_inv_def)
    from main[OF this] show ?thesis by auto
  next
    case None
    with assms(1) have e: "m = None" "xs = []" "fresh w = s" "\<forall>x. heap w x = None"
      by (auto simp: signal_inv_def)
    from ensureRing_ring[OF None] obtain w1 where
      w1: "ensureRing w = Inr w1" "ring_ok w1 (fresh w) []" "sentinel_slot w1 = None"
          "heap w1 = (heap w)(fresh w \<mapsto>
                   \<lparr>link_next = Some (fresh w), link_prev = Some (fresh w), callbackFunc = None,
                    refCount = 2, enabled = uninit w (fresh w)\<rparr>)"
          "trace w1 = trace w" "uninit w1 = uninit w" "fresh w1 = fresh w + 1"
          "callbackRing w1 = Some (fresh w)" by blast
    have c: "connect cb w = connect cb w1" using connect_via_ensure[OF w1(1)] w1(8) by simp
    have "\<exists>w'. connect cb w1 = Inr (Some (fresh w1), w') \<and> signal_inv m s w' (xs @ [fresh w1])
          \<and> fresh w1 \<notin> set (s # xs) \<and> fresh w' = fresh w1 + 1
          \<and> trace w' = trace w1 \<and> uninit w' = uninit w1
          \<and> heap w' (fresh w1) = Some \<lparr>link_next = Some s, link_prev = Some (last (s # xs)),
                 callbackFunc = cb, refCount = 1, enabled = uninit w1 (fresh w1)\<rparr>
          \<and> (\<forall>y\<in>set (s # xs). map_option payload (heap w' y) = map_option payload (heap w1 y))"
      by (rule main) (use w1 e in \<open>auto simp: pure_at_def\<close>)
    then show ?thesis unfolding c using w1(5,6) e(2) by auto
  qed
qed

lemma signal_inv_unalloc:
  assumes "signal_inv m s w xs" "x \<noteq> s" "x \<notin> set xs"
  shows "heap w x = None"
  using assms by (cases "callbackRing w") (auto simp: signal_inv_def)

lemma signal_inv_ring:
  assumes "signal_inv m s w xs" "x \<in> set xs"
  shows "callbackRing w = Some s \<and> ring_ok w s xs \<and> sentinel_slot w = m
          \<and> map_option enabled (heap w s) = Some (uninit w s)
          \<and> (\<forall>x. x \<notin> set (s # xs) \<longrightarrow> heap w x = None)
          \<and> list_all (pure_at (heap w)) (s # xs)"
  using assms by (cases "callbackRing w") (auto simp: signal_inv_def)

lemma disconnect_inv:
  assumes "signal_inv m s w xs" "x \<noteq> s" "length xs \<le> k"
  shows "(x \<notin> set xs \<and> disconnect k (Some x) w = Inl Dangling)
       \<or> (x \<in> set xs \<and> (\<exists>w'. disconnect k (Some x) w = Inr (True, None, w')
             \<and> signal_inv m s w' (remove1 x xs) \<and> trace w' = trace w \<and> uninit w' = uninit w
             \<and> heap w' x = None
             \<and> (\<forall>y\<in>set (s # xs). y \<noteq> x \<longrightarrow> map_option payload (heap w' y) = map_option payload (heap w y))))"
proof (cases "x \<in> set xs")
  case False
  from signal_inv_unalloc[OF assms(1,2) False] have "heap w x = None" .
  then show ?thesis using False by (simp add: disconnect_def removeLink_def)
next
  case True
  from signal_inv_ring[OF assms(1) True] have inv: "callbackRing w = Some s" "ring_ok w s xs"
     "sentinel_slot w = m" "map_option enabled (heap w s) = Some (uninit w s)"
     "\<forall>x. x \<notin> set (s # xs) \<longrightarrow> heap w x = None" "list_all (pure_at (heap w)) (s # xs)" by auto
  from True obtain as bs where xs: "xs = as @ x # bs" "x \<notin> set as" by (meson split_list_first)
  have r1: "remove1 x xs = as @ bs" using xs by (simp add: remove1_append)
  have len: "length (as @ bs) < k" using assms(3) xs by simp
  from removeLink_ring[OF inv(2)[unfolded xs(1)] len] obtain H where
    H: "removeLink k x w = Inr (True, w\<lparr>heap := H\<rparr>)" "ring_ok (w\<lparr>heap := H\<rparr>) s (as @ bs)" "H x = None"
       "\<forall>y. y \<noteq> x \<longrightarrow> map_option payload (H y) = map_option payload (heap w y)" by blast
  let ?w' = "w\<lparr>heap := H\<rparr>"
  have sl: "sentinel_slot ?w' = m"
    using sentinel_slot_payload[of ?w' w s] inv(1,3) H(4) assms(2) by simp
  have en: "map_option enabled (H s) = Some (uninit w s)"
    using H(4) assms(2) inv(4) payload_fields[of "H s" "heap w s"] by simp
  have none: "\<forall>y. y \<notin> set (s # as @ bs) \<longrightarrow> H y = None"
  proof (intro allI impI)
    fix y assume y: "y \<notin> set (s # as @ bs)"
    show "H y = None"
    proof (cases "y = x")
      case True then show ?thesis using H(3) by simp
    next
      case False
      then have "heap w y = None" using y inv(5) xs by auto
      then show ?thesis using H(4) False payload_fields[of "H y" "heap w y"] by simp
    qed
  qed
  have d: "distinct (s # xs)" using inv(2) by (simp add: ring_ok_def ring_at_def)
  have "\<forall>y\<in>set (s # as @ bs). pure_at H y"
  proof
    fix y assume y: "y \<in> set (s # as @ bs)"
    then have "y \<noteq> x" using d xs by auto
    then have "map_option payload (H y) = map_option payload (heap w y)" using H(4) by blast
    moreover have "pure_at (heap w) y" using inv(6) y xs by (auto simp: list_all_iff)
    ultimately show "pure_at H y" using pure_at_payload by blast
  qed
  then have pu: "list_all (pure_at H) (s # as @ bs)" by (simp add: list_all_iff)
  have "signal_inv m s ?w' (remove1 x xs)"
    unfolding r1 using inv(1) H(2) sl en none pu by (simp add: signal_inv_def)
  moreover have "disconnect k (Some x) w = Inr (True, None, ?w')"
    using H(1) by (simp add: disconnect_def)
  ultimately show ?thesis using True H(3,4) by (intro disjI2 conjI exI[of _ ?w']) auto
qed

lemma setEnabled_inv:
  assumes "signal_inv m s w xs" "x \<noteq> s"
  shows "(x \<notin> set xs \<and> ref_setEnabled (Some x) flag w = Inl Dangling)
       \<or> (x \<in> set xs \<and> (\<exists>w' nd. ref_setEnabled (Some x) flag w = Inr w'
             \<and> signal_inv m s w' xs \<and> trace w' = trace w \<and> uninit w' = uninit w
             \<and> heap w x = Some nd \<and> heap w' = (heap w)(x \<mapsto> nd\<lparr>enabled := flag\<rparr>)))"
proof (cases "x \<in> set xs")
  case False
  from signal_inv_unalloc[OF assms(1,2) False] have "heap w x = None" .
  then show ?thesis using False by (simp add: ref_setEnabled_def setEnabled_def)
next
  case True
  from signal_inv_ring[OF assms(1) True] have inv: "callbackRing w = Some s" "ring_ok w s xs"
     "sentinel_slot w = m" "map_option enabled (heap w s) = Some (uninit w s)"
     "\<forall>x. x \<notin> set (s # xs) \<longrightarrow> heap w x = None" "list_all (pure_at (heap w)) (s # xs)" by auto
  from setEnabled_ring[OF inv(2), of x flag] True obtain nd where
    nd: "heap w x = Some nd" "setEnabled x flag w = Inr (w\<lparr>heap := (heap w)(x \<mapsto> nd\<lparr>enabled := flag\<rparr>)\<rparr>)"
        "ring_ok (w\<lparr>heap := (heap w)(x \<mapsto> nd\<lparr>enabled := flag\<rparr>)\<rparr>) s xs" by auto
  let ?H = "(heap w)(x \<mapsto> nd\<lparr>enabled := flag\<rparr>)"
  let ?w' = "w\<lparr>heap := ?H\<rparr>"
  have sl: "sentinel_slot ?w' = m" using inv(1,3) assms(2) by (simp add: sentinel_slot_def)
  have en: "map_option enabled (?H s) = Some (uninit w s)" using inv(4) assms(2) by simp
  have none: "\<forall>y. y \<notin> set (s # xs) \<longrightarrow> ?H y = None" using inv(5) True by auto
  have "\<forall>y\<in>set (s # xs). pure_at ?H y"
    using inv(6) nd(1) by (auto simp: list_all_iff pure_at_def)
  then have pu: "list_all (pure_at ?H) (s # xs)" by (simp add: list_all_iff)
  have "signal_inv m s ?w' xs"
    using inv(1) nd(3) sl en none pu by (simp add: signal_inv_def del: fun_upd_apply)
  then show ?thesis using True nd(1,2) by (intro disjI2 conjI exI[of _ ?w'] exI[of _ nd]) (auto simp: ref_setEnabled_def)
qed

lemma emit_inv:
  assumes "signal_inv m s w xs" "length xs < k"
  shows "emit k C args w =
           Inr (c_result C (fst (collect C args (heap w) (s # xs) (c_init C))),
                w\<lparr>trace := trace w @ (if callbackRing w = None then []
                    else snd (collect C args (heap w) (s # xs) (c_init C)))\<rparr>)"
proof (cases "callbackRing w")
  case None
  with assms(1) have "heap w s = None" by (auto simp: signal_inv_def)
  then show ?thesis using None by (simp add: emit_def)
next
  case (Some r)
  with assms(1) have inv: "ring_ok w s xs" "list_all (pure_at (heap w)) (s # xs)"
    by (auto simp: signal_inv_def)
  from inv(2) have "\<forall>x\<in>set (s # xs). pure_at (heap w) x" by (simp add: list_all_iff)
  from emit_ring[OF inv(1) this assms(2)] show ?thesis using Some by simp
qed

subsection \<open>What an emission collects\<close>

lemma snd_collect_Cons:
  "snd (collect C args h (x # xs) cs) =
     (case h x of
        None \<Rightarrow> []
      | Some nd \<Rightarrow>
          (case callbackFunc nd of
             None \<Rightarrow> snd (collect C args h xs cs)
           | Some cb \<Rightarrow>
               if enabled nd
               then (if snd (c_call C cs (cb_fun cb args))
                     then x # snd (collect C args h xs (fst (c_call C cs (cb_fun cb args))))
                     else [x])
               else snd (collect C args h xs cs)))"
  by (simp split: option.splits prod.splits)

lemma fst_collect_Cons:
  "fst (collect C args h (x # xs) cs) =
     (case h x of
        None \<Rightarrow> cs
      | Some nd \<Rightarrow>
          (case callbackFunc nd of
             None \<Rightarrow> fst (collect C args h xs cs)
           | Some cb \<Rightarrow>
               if enabled nd
               then (if snd (c_call C cs (cb_fun cb args))
                     then fst (collect C args h xs (fst (c_call C cs (cb_fun cb args))))
                     else fst (c_call C cs (cb_fun cb args)))
               else fst (collect C args h xs cs)))"
  by (simp split: option.splits prod.splits)

lemma active_Some: "h x = Some nd \<Longrightarrow> active h x = (enabled nd \<and> callbackFunc nd \<noteq> None)"
  by (simp add: active_def)

lemma active_None: "h x = None \<Longrightarrow> active h x = False"
  by (simp add: active_def)

lemma collect_active:
  "y \<in> set (snd (collect C args h ys cs)) \<Longrightarrow> y \<in> set ys \<and> active h y"
proof (induction ys arbitrary: cs)
  case Nil
  then show ?case by simp
next
  case (Cons x xs)
  show ?case
  proof (cases "h x")
    case None
    then show ?thesis using Cons.prems unfolding snd_collect_Cons by simp
  next
    case (Some nd)
    show ?thesis
    proof (cases "active h x")
      case False
      then have "snd (collect C args h (x # xs) cs) = snd (collect C args h xs cs)"
        unfolding snd_collect_Cons using Some by (auto simp: active_Some split: option.splits)
      then show ?thesis using Cons.prems Cons.IH by auto
    next
      case True
      then obtain cb where cb: "callbackFunc nd = Some cb" "enabled nd"
        using Some by (auto simp: active_Some)
      have "set (snd (collect C args h (x # xs) cs)) \<subseteq>
              insert x (set (snd (collect C args h xs (fst (c_call C cs (cb_fun cb args))))))"
        unfolding snd_collect_Cons using Some cb by auto
      then show ?thesis using Cons.prems Cons.IH True by auto
    qed
  qed
qed

lemma collect_always:
  assumes "\<And>cs r. snd (c_call C cs r)" "\<forall>y\<in>set ys. h y \<noteq> None"
  shows "snd (collect C args h ys cs) = filter (active h) ys"
  using assms(2)
proof (induction ys arbitrary: cs)
  case Nil
  then show ?case by simp
next
  case (Cons x xs)
  then obtain nd where nd: "h x = Some nd" by auto
  have IH: "\<And>cs. snd (collect C args h xs cs) = filter (active h) xs" using Cons by simp
  show ?case unfolding snd_collect_Cons using nd assms(1)
    by (simp add: IH active_Some split: option.splits)
qed

lemma collect_vector:
  assumes "\<forall>y\<in>set ys. h y \<noteq> None"
  shows "fst (collect CollectorVector args h ys cs) =
           cs @ map (\<lambda>y. cb_fun (the (callbackFunc (the (h y)))) args) (filter (active h) ys)"
  using assms
proof (induction ys arbitrary: cs)
  case Nil
  then show ?case by simp
next
  case (Cons x xs)
  then obtain nd where nd: "h x = Some nd" by auto
  have IH: "\<And>cs. fst (collect CollectorVector args h xs cs) =
           cs @ map (\<lambda>y. cb_fun (the (callbackFunc (the (h y)))) args) (filter (active h) xs)"
    using Cons by simp
  have cv: "\<And>cs r. c_call CollectorVector cs r = (cs @ [r], True)" by (simp add: CollectorVector_def)
  show ?case unfolding fst_collect_Cons using nd
    by (simp add: IH cv active_Some split: option.splits)
qed

lemma run_calls_Cons:
  "run_calls k C (c # cs) w =
     (case run_calls k C [c] w of
        Inl e \<Rightarrow> Inl e
      | Inr (rs, w') \<Rightarrow>
          (case run_calls k C cs w' of Inl e \<Rightarrow> Inl e | Inr (rs', w'') \<Rightarrow> Inr (rs @ rs', w'')))"
  by (cases c) (auto split: sum.splits prod.splits)

subsection \<open>Runs of calls\<close>

lemma signal_inv_trace: "signal_inv m s (w\<lparr>trace := t\<rparr>) xs = signal_inv m s w xs"
  by (cases "callbackRing w") (simp_all add: signal_inv_def ring_ok_def sentinel_slot_def)

lemma call_inv:
  assumes "signal_inv m s w xs" "plain_call c" "target c \<noteq> Some s" "target c \<notin> Some ` X"
    and "X \<subseteq> set xs" "length xs < k"
  shows "run_calls k C [c] w = Inl Dangling
       \<or> (\<exists>rs w' xs' tr. run_calls k C [c] w = Inr (rs, w') \<and> signal_inv m s w' xs'
            \<and> length xs' \<le> length xs + 1 \<and> uninit w' = uninit w \<and> X \<subseteq> set xs'
            \<and> (\<forall>x\<in>X. map_option payload (heap w' x) = map_option payload (heap w x))
            \<and> trace w' = trace w @ tr \<and> (\<forall>y\<in>set tr. active (heap w) y))"
proof (cases c)
  case (Connect cb)
  with assms(2) have "pure_cb cb" by simp
  from connect_inv[OF assms(1) this] obtain w' where
    w': "connect cb w = Inr (Some (fresh w' - 1), w')" "signal_inv m s w' (xs @ [fresh w' - 1])"
        "trace w' = trace w" "uninit w' = uninit w"
        "\<forall>y\<in>set xs. map_option payload (heap w' y) = map_option payload (heap w y)" by blast
  have "run_calls k C [c] w = Inr ([], w')" using Connect w'(1) by simp
  then show ?thesis using w'(2-5) assms(5)
    by (intro disjI2 exI[of _ "[]"] exI[of _ w'] exI[of _ "xs @ [fresh w' - 1]"]) auto
next
  case (Disconnect x)
  with assms(3,4) have x: "x \<noteq> s" "x \<notin> X" by auto
  from disconnect_inv[OF assms(1) x(1), of k] assms(6)
  consider "disconnect k (Some x) w = Inl Dangling"
    | w' where "x \<in> set xs" "disconnect k (Some x) w = Inr (True, None, w')"
        "signal_inv m s w' (remove1 x xs)" "trace w' = trace w" "uninit w' = uninit w"
        "\<forall>y\<in>set (s # xs). y \<noteq> x \<longrightarrow> map_option payload (heap w' y) = map_option payload (heap w y)"
    by auto
  then show ?thesis
  proof cases
    case 1
    then show ?thesis using Disconnect by simp
  next
    case 2
    have r: "run_calls k C [c] w = Inr ([], w')" using Disconnect 2(2) by simp
    have X: "X \<subseteq> set (remove1 x xs)" using assms(5) x(2) by (metis in_set_remove1 subsetD subsetI)
    have len: "length (remove1 x xs) \<le> length xs + 1"
      by (cases "x \<in> set xs") (simp_all add: length_remove1)
    have pl: "\<forall>y\<in>X. map_option payload (heap w' y) = map_option payload (heap w y)"
      using 2(6) assms(5) x(2) by auto
    show ?thesis using r 2(3,4,5) X len pl
      by (intro disjI2 exI[of _ "[]"] exI[of _ w'] exI[of _ "remove1 x xs"]) auto
  qed
next
  case (SetEnabled x flag)
  with assms(3,4) have x: "x \<noteq> s" "x \<notin> X" by auto
  from setEnabled_inv[OF assms(1) x(1), of flag]
  consider "ref_setEnabled (Some x) flag w = Inl Dangling"
    | w' nd where "x \<in> set xs" "ref_setEnabled (Some x) flag w = Inr w'"
        "signal_inv m s w' xs" "trace w' = trace w" "uninit w' = uninit w"
        "heap w x = Some nd" "heap w' = (heap w)(x \<mapsto> nd\<lparr>enabled := flag\<rparr>)"
    by auto
  then show ?thesis
  proof cases
    case 1
    then show ?thesis using SetEnabled by simp
  next
    case 2
    have r: "run_calls k C [c] w = Inr ([], w')" using SetEnabled 2(2) by simp
    have pl: "\<forall>y\<in>X. map_option payload (heap w' y) = map_option payload (heap w y)"
      using 2(7) x(2) by auto
    show ?thesis using r 2(3,4,5) assms(5) pl
      by (intro disjI2 exI[of _ "[]"] exI[of _ w'] exI[of _ xs]) auto
  qed
next
  case (Emit args)
  let ?tr = "if callbackRing w = None then [] else snd (collect C args (heap w) (s # xs) (c_init C))"
  let ?w' = "w\<lparr>trace := trace w @ ?tr\<rparr>"
  from emit_inv[OF assms(1,6), of C args]
  have r: "run_calls k C [c] w = Inr ([c_result C (fst (collect C args (heap w) (s # xs) (c_init C)))], ?w')"
    using Emit by simp
  have inv: "signal_inv m s ?w' xs" using assms(1) by (simp only: signal_inv_trace)
  have act: "\<forall>y\<in>set ?tr. active (heap w) y"
    using collect_active[of _ C args "heap w" "s # xs" "c_init C"] by (auto simp del: collect.simps)
  show ?thesis using r inv act assms(5)
    by (intro disjI2 exI[of _ "[c_result C (fst (collect C args (heap w) (s # xs) (c_init C)))]"]
          exI[of _ ?w'] exI[of _ xs] exI[of _ ?tr]) (simp del: collect.simps)
qed

lemma run_calls_inv:
  assumes "signal_inv m s w xs" "list_all plain_call calls"
    and "\<forall>c\<in>set calls. target c \<noteq> Some s \<and> target c \<notin> Some ` X"
    and "X \<subseteq> set xs" "length xs + length calls < k"
  shows "run_calls k C calls w = Inl Dangling
       \<or> (\<exists>rs w' xs' tr. run_calls k C calls w = Inr (rs, w') \<and> signal_inv m s w' xs'
            \<and> length xs' \<le> length xs + length calls \<and> uninit w' = uninit w \<and> X \<subseteq> set xs'
            \<and> (\<forall>x\<in>X. map_option payload (heap w' x) = map_option payload (heap w x))
            \<and> trace w' = trace w @ tr \<and> (\<forall>y\<in>set tr. y \<in> X \<longrightarrow> active (heap w) y))"
  using assms
proof (induction calls arbitrary: w xs)
  case Nil
  then show ?case by (intro disjI2 exI[of _ "[]"] exI[of _ w] exI[of _ xs]) simp
next
  case (Cons c cs)
  have c: "plain_call c" "target c \<noteq> Some s" "target c \<notin> Some ` X" using Cons.prems by auto
  have len: "length xs < k" using Cons.prems by simp
  from call_inv[OF Cons.prems(1) c Cons.prems(4) len, of C]
  consider "run_calls k C [c] w = Inl Dangling"
    | rs1 w1 xs1 tr1 where "run_calls k C [c] w = Inr (rs1, w1)" "signal_inv m s w1 xs1"
        "length xs1 \<le> length xs + 1" "uninit w1 = uninit w" "X \<subseteq> set xs1"
        "\<forall>x\<in>X. map_option payload (heap w1 x) = map_option payload (heap w x)"
        "trace w1 = trace w @ tr1" "\<forall>y\<in>set tr1. active (heap w) y"
    by blast
  then show ?case
  proof cases
    case 1
    then show ?thesis by (subst run_calls_Cons) simp
  next
    case 2
    have rest: "list_all plain_call cs" "\<forall>c\<in>set cs. target c \<noteq> Some s \<and> target c \<notin> Some ` X"
      "length xs1 + length cs < k" using Cons.prems 2(3) by auto
    from Cons.IH[OF 2(2) rest(1,2) 2(5) rest(3)]
    consider "run_calls k C cs w1 = Inl Dangling"
      | rs2 w2 xs2 tr2 where "run_calls k C cs w1 = Inr (rs2, w2)" "signal_inv m s w2 xs2"
          "length xs2 \<le> length xs1 + length cs" "uninit w2 = uninit w1" "X \<subseteq> set xs2"
          "\<forall>x\<in>X. map_option payload (heap w2 x) = map_option payload (heap w1 x)"
          "trace w2 = trace w1 @ tr2" "\<forall>y\<in>set tr2. y \<in> X \<longrightarrow> active (heap w1) y"
      by blast
    then show ?thesis
    proof cases
      case 1
      then show ?thesis using 2(1) by (subst run_calls_Cons) simp
    next
      case b: 2
      have r: "run_calls k C (c # cs) w = Inr (rs1 @ rs2, w2)"
        using 2(1) b(1) by (subst run_calls_Cons) simp
      have l: "length xs2 \<le> length xs + length (c # cs)" using 2(3) b(3) by simp
      have pl: "\<forall>x\<in>X. map_option payload (heap w2 x) = map_option payload (heap w x)"
        using 2(6) b(6) by simp
      have tr: "trace w2 = trace w @ (tr1 @ tr2)" using 2(7) b(7) by simp
      have act: "\<forall>y\<in>set (tr1 @ tr2). y \<in> X \<longrightarrow> active (heap w) y"
        using 2(8) b(8) 2(6) active_payload[of "heap w1" _ "heap w"] by auto
      show ?thesis using r b(2) l 2(4) b(4,5) pl tr act
        by (intro disjI2 exI[of _ "rs1 @ rs2"] exI[of _ w2] exI[of _ xs2] exI[of _ "tr1 @ tr2"]) simp
    qed
  qed
qed

lemma ProtoSignal_inv:
  assumes "pure_cb m"
  shows "\<exists>w0. ProtoSignal m (init_world u) = Inr w0 \<and> signal_inv m 1 w0 [] \<and> uninit w0 = u
           \<and> trace w0 = []"
proof (cases m)
  case None
  have "ProtoSignal m (init_world u) = Inr (init_world u)"
    using None by (simp add: ProtoSignal_def init_world_def)
  moreover have "signal_inv m 1 (init_world u) []"
    using None by (simp add: signal_inv_def init_world_def)
  ultimately show ?thesis by (simp add: init_world_def)
next
  case (Some c)
  let ?w0 = "\<lparr>heap = [1 \<mapsto> \<lparr>link_next = Some 1, link_prev = Some 1, callbackFunc = Some c,
                    refCount = 2, enabled = u 1\<rparr>],
             fresh = 2, uninit = u, callbackRing = Some 1, trace = []\<rparr> :: ('a, 'b) world"
  have p: "ProtoSignal m (init_world u) = Inr ?w0"
    using Some by (simp add: ProtoSignal_def ensureRing_def prim_defs init_world_def)
  have "ring_ok ?w0 1 []" by (rule ring_ok_single) auto
  then have "signal_inv m 1 ?w0 []"
    using Some assms by (simp add: signal_inv_def sentinel_slot_def pure_at_def pure_cb_def)
  then show ?thesis using p by simp
qed

lemma signal_inv_sentinel:
  assumes "signal_inv m s w xs"
  shows "sentinel_slot w = m"
  using assms by (cases "callbackRing w") (auto simp: signal_inv_def sentinel_slot_def)

lemma emit_sentinel:
  assumes "signal_inv m s w xs" "length xs < k"
  shows "\<exists>r tr. emit k C args w = Inr (r, w\<lparr>trace := trace w @ tr\<rparr>)
           \<and> (s \<in> set tr \<longleftrightarrow> m \<noteq> None \<and> uninit w s)"
proof (cases "callbackRing w")
  case None
  with assms(1) have "m = None" by (simp add: signal_inv_def)
  moreover have "emit k C args w = Inr (c_result C (c_init C), w\<lparr>trace := trace w @ []\<rparr>)"
    using None by (simp add: emit_def)
  ultimately show ?thesis by (intro exI[of _ "c_result C (c_init C)"] exI[of _ "[]"]) simp
next
  case (Some r)
  with assms(1) have inv: "ring_ok w s xs" "sentinel_slot w = m" "callbackRing w = Some s"
     "map_option enabled (heap w s) = Some (uninit w s)" by (auto simp: signal_inv_def)
  from inv(4) obtain nd where nd: "heap w s = Some nd" "enabled nd = uninit w s" by auto
  have cb: "callbackFunc nd = m" using inv(2,3) nd by (simp add: sentinel_slot_def)
  have d: "s \<notin> set xs" using inv(1) by (simp add: ring_ok_def ring_at_def)
  let ?tr = "snd (collect C args (heap w) (s # xs) (c_init C))"
  have notin: "\<And>cs. s \<notin> set (snd (collect C args (heap w) xs cs))"
    using collect_active[of s C args "heap w" xs] d by blast
  have "s \<in> set ?tr \<longleftrightarrow> m \<noteq> None \<and> uninit w s"
    unfolding snd_collect_Cons using nd cb notin by (auto split: option.splits)
  moreover have "emit k C args w =
      Inr (c_result C (fst (collect C args (heap w) (s # xs) (c_init C))), w\<lparr>trace := trace w @ ?tr\<rparr>)"
    using emit_inv[OF assms, of C args] Some by (simp del: collect.simps)
  ultimately show ?thesis by blast
qed

subsection \<open>The ring seen from any of its nodes\<close>

lemma path_rotate:
  assumes "path F s (s # xs) s" "distinct (s # xs)" "n \<in> set (s # xs)"
  shows "\<exists>ys. path F n (n # ys) n \<and> set (n # ys) = set (s # xs) \<and> distinct (n # ys)
            \<and> length ys = length xs"
proof (cases "n = s")
  case True
  then show ?thesis using assms by (intro exI[of _ xs]) simp
next
  case False
  with assms(3) obtain as bs where xs: "xs = as @ n # bs" by (auto dest: split_list)
  from assms(1) have "path F s ((s # as) @ n # bs) s" by (simp add: xs)
  then have p1: "path F s (s # as) n" and p2: "path F n (n # bs) s"
    unfolding path_append by auto
  have "path F n ((n # bs) @ (s # as)) n" unfolding path_append using p1 p2 by blast
  then have "path F n (n # bs @ s # as) n" by simp
  moreover have "set (n # bs @ s # as) = set (s # xs)" by (auto simp: xs)
  moreover have "distinct (n # bs @ s # as)" using assms(2) by (auto simp: xs)
  moreover have "length (bs @ s # as) = length xs" by (simp add: xs)
  ultimately show ?thesis by blast
qed

lemma removeSibling_ring_miss:
  assumes "ring_at (heap w) s xs" "self \<in> set (s # xs)"
    and "t \<notin> Some ` (set (s # xs) - {self})" "length xs < k"
  shows "removeSibling k self t w = Inr (False, w)"
proof -
  from assms(1) have d: "distinct (s # xs)" and p: "path (nxt (heap w)) s (s # xs) s"
    by (auto simp: ring_at_def)
  from path_rotate[OF p d assms(2)] obtain ys where
    ys: "path (nxt (heap w)) self (self # ys) self" "set (self # ys) = set (s # xs)"
        "distinct (self # ys)" "length ys = length xs" by blast
  from ys(1) obtain l where l: "nxt (heap w) self = Some l" "path (nxt (heap w)) l ys self"
    by (auto split: option.splits)
  from nxt_alloc[OF l(1)] obtain nd where nd: "heap w self = Some nd" "link_next nd = Some l" by blast
  have "set ys = set (s # xs) - {self}" using ys(2,3) by auto
  then have t: "t \<notin> Some ` set ys" using assms(3) by simp
  have "removeSibling_loop k self t (Some l) w = Inr (False, w)"
    by (rule walk_miss[OF l(2) _ t]) (use ys assms(4) in auto)
  then show ?thesis using nd by (simp add: removeSibling_def)
qed

lemma removeSibling_ring_hit:
  assumes "ring_at (heap w) s xs" "self \<in> set (s # xs)"
    and "x \<in> set (s # xs) - {self}" "length xs < k"
  shows "removeSibling k self (Some x) w =
           (case unlink x w of Inl e \<Rightarrow> Inl e | Inr w' \<Rightarrow> Inr (True, w'))"
proof -
  from assms(1) have d: "distinct (s # xs)" and p: "path (nxt (heap w)) s (s # xs) s"
    by (auto simp: ring_at_def)
  from path_rotate[OF p d assms(2)] obtain ys where
    ys: "path (nxt (heap w)) self (self # ys) self" "set (self # ys) = set (s # xs)"
        "distinct (self # ys)" "length ys = length xs" by blast
  from ys(1) obtain l where l: "nxt (heap w) self = Some l" "path (nxt (heap w)) l ys self"
    by (auto split: option.splits)
  have "x \<in> set ys" using assms(3) ys(2) by auto
  then obtain as bs where s: "ys = as @ x # bs" by (auto dest: split_list)
  from l(2) have pa: "path (nxt (heap w)) l as x" unfolding s path_append by auto
  show ?thesis
    by (rule removeSibling_walk[OF l(1) pa]) (use ys assms(3,4) s in auto)
qed

lemma unlink_succeeds:
  assumes "heap w a = Some nd" "link_next nd = Some n" "link_prev nd = Some p"
    and "heap w n \<noteq> None" "heap w p \<noteq> None" "refCount nd \<in> {1..<2147483647}"
  shows "\<exists>w'. unlink a w = Inr w'"
  using assms
  by (cases "n = a"; cases "p = a"; cases "p = n")
     (auto simp: unlink_def prim_defs split: option.splits)

lemma ring_at_node:
  assumes "ring_at h s xs" "x \<in> set (s # xs)"
  shows "\<exists>nd n p. h x = Some nd \<and> link_next nd = Some n \<and> link_prev nd = Some p
           \<and> n \<in> set (s # xs) \<and> p \<in> set (s # xs)"
proof (cases "x = s")
  case True
  from nxt_alloc[OF ring_at_nxt_s[OF assms(1)]] prv_alloc[OF ring_at_prv_s[OF assms(1)]]
  obtain nd where nd: "h s = Some nd" "link_next nd = Some (hd (xs @ [s]))"
    "link_prev nd = Some (last (s # xs))" by auto
  have "hd (xs @ [s]) \<in> set (s # xs)" by (cases xs) auto
  moreover have "last (s # xs) \<in> set (s # xs)" by (metis last_in_set list.distinct(1))
  ultimately show ?thesis using nd True by blast
next
  case False
  with assms(2) obtain as bs where xs: "xs = as @ x # bs" by (auto dest: split_list)
  from nxt_alloc[OF ring_at_nxt[OF assms(1)[unfolded xs]]] prv_alloc[OF ring_at_prv[OF assms(1)[unfolded xs]]]
  obtain nd where nd: "h x = Some nd" "link_next nd = Some (hd (bs @ [s]))"
    "link_prev nd = Some (last (s # as))" by auto
  have "hd (bs @ [s]) \<in> set (s # xs)" unfolding xs by (cases bs) auto
  moreover have "last (s # as) \<in> set (s # as)" by (metis last_in_set list.distinct(1))
  then have "last (s # as) \<in> set (s # xs)" unfolding xs by auto
  ultimately show ?thesis using nd by blast
qed

lemma unlink_ring_succeeds:
  assumes "ring_ok w s xs" "x \<in> set (s # xs)"
  shows "\<exists>w'. unlink x w = Inr w'"
proof -
  from assms(1) have at: "ring_at (heap w) s xs" by (simp add: ring_ok_def)
  from ring_at_node[OF at assms(2)] obtain nd n p where
    nd: "heap w x = Some nd" "link_next nd = Some n" "link_prev nd = Some p"
        "n \<in> set (s # xs)" "p \<in> set (s # xs)" by blast
  from ring_at_alloc[OF at nd(4)] ring_at_alloc[OF at nd(5)]
  have al: "heap w n \<noteq> None" "heap w p \<noteq> None" by auto
  have "refCount nd \<in> {1..<2147483647}" using assms nd(1) by (auto simp: ring_ok_def list_all_iff)
  from unlink_succeeds[OF nd(1-3) al this] show ?thesis .
qed

subsection \<open>An example state\<close>

lemma two_handlers_heap:
  "heap two_handlers (Suc 0) = Some \<lparr>link_next = Some 2, link_prev = Some 3, callbackFunc = None,
      refCount = 2, enabled = True\<rparr>"
  "heap two_handlers 2 = Some \<lparr>link_next = Some 3, link_prev = Some 1,
      callbackFunc = Some (Callback [] (\<lambda>x. 10)), refCount = 1, enabled = True\<rparr>"
  "heap two_handlers 3 = Some \<lparr>link_next = Some 1, link_prev = Some 2,
      callbackFunc = Some (Callback [] (\<lambda>x. 20)), refCount = 1, enabled = True\<rparr>"
  "x \<notin> {1, 2, 3} \<Longrightarrow> heap two_handlers x = None"
  "callbackRing two_handlers = Some 1" "fresh two_handlers = 4" "trace two_handlers = []"
  "uninit two_handlers = (\<lambda>a. True)"
  by (auto simp add: two_handlers_def eval_nat_numeral prim_defs op_defs run_defs)

lemma two_handlers_ring: "ring_ok two_handlers 1 [2, 3]"
  by (simp add: ring_ok_def ring_at_def nxt_def prv_def two_handlers_heap)

lemma two_handlers_inv: "signal_inv None 1 two_handlers [2, 3]"
  using two_handlers_heap(4) two_handlers_ring
  by (auto simp add: signal_inv_def two_handlers_heap sentinel_slot_def pure_at_def)

lemma count_filter_distinct:
  "distinct ys \<Longrightarrow> x \<in> set ys \<Longrightarrow> P x \<Longrightarrow> count_list (filter P ys) x = 1"
  by (induction ys) (auto simp: count_list_0_iff)

lemma signal_inv_alloc:
  assumes "signal_inv m s w xs" "x \<in> set xs"
  shows "\<forall>y\<in>set (s # xs). heap w y \<noteq> None" "distinct (s # xs)" "callbackRing w = Some s"
proof -
  from signal_inv_ring[OF assms] have r: "ring_ok w s xs" "callbackRing w = Some s" by auto
  then have at: "ring_at (heap w) s xs" by (simp add: ring_ok_def)
  show "\<forall>y\<in>set (s # xs). heap w y \<noteq> None" using ring_at_alloc[OF at] by blast
  show "distinct (s # xs)" using at by (simp add: ring_at_def)
  show "callbackRing w = Some s" by (rule r(2))
qed

subsection \<open>Assertions and destruction\<close>


subsection \<open>The assertions of the destructor and of a release\<close>






subsection \<open>Reference counts stay in range\<close>









































subsection \<open>Runs through valid handles\<close>







subsection \<open>The enabled flag of a new node\<close>

text \<open>
  C10.  The constructor of \<open>SignalLink\<close> sets \<open>_next\<close> and \<open>_prev\<close> to null, stores the
  callback and sets the reference count to one; the enabled flag of the new node is not
  written, it is what the memory at that address reads as.  Hence on a signal with one
  freshly connected callback that was never toggled, an emission invokes the callback
  exactly when that uninitialised flag reads true.
\<close>

theorem new_link_enabled_uninitialised:
  "snd (new_SignalLink cb w) =
     w\<lparr>heap := (heap w)(fresh w \<mapsto>
          \<lparr>link_next = None, link_prev = None, callbackFunc = cb, refCount = 1,
           enabled = uninit w (fresh w)\<rparr>),
       fresh := fresh w + 1\<rparr>
   \<and> observe (signal_run (Suc (Suc k)) CollectorVector None
         [Connect (Some (Callback [] f)), Emit x] u)
       = Inr ([if u 2 then [f x] else []], if u 2 then [2] else [])"
  by (simp add: eval_nat_numeral prim_defs op_defs run_defs CollectorVector_def)

subsection \<open>Emission in connection order\<close>

text \<open>
  With the uninitialised flags of the three nodes reading true, one emission with the
  Vector collector invokes the three callbacks once each, in the order of connection, and
  returns their results in that order.
\<close>

lemma emit_in_connection_order:
  assumes "u 2" "u 3" "u 4"
  shows "observe (signal_run (Suc (Suc (Suc (Suc k)))) CollectorVector None
      [Connect (Some (Callback [] f)), Connect (Some (Callback [] g)),
       Connect (Some (Callback [] h)), Emit x] u)
   = Inr ([[f x, g x, h x]], [2, 3, 4])"
  using assms by (simp add: eval_nat_numeral prim_defs op_defs run_defs CollectorVector_def)

text \<open>
  C1.  Claimed: after connecting A, B and C in that order, with no call of enable or
  disable, one emission with the Vector collector invokes A, B and C once each in that
  order and returns their three results.  The code does not do so on every store: the
  flags of the three nodes are never written, and where they read false the emission
  invokes nothing and returns the empty vector.
\<close>

theorem never_enabled_callbacks_not_invoked:
  "observe (signal_run 4 CollectorVector None
      [Connect (Some (Callback [] (\<lambda>x::unit. 10::int))), Connect (Some (Callback [] (\<lambda>x. 20))),
       Connect (Some (Callback [] (\<lambda>x. 30))), Emit ()] (\<lambda>a. False))
   = Inr ([[]], [])"
  by (simp add: eval_nat_numeral prim_defs op_defs run_defs CollectorVector_def)

subsection \<open>The sentinel's callback slot\<close>

text \<open>
  The constructor stores a non-null default callback in the sentinel itself, and an
  emission starts at the sentinel: here the slot holds the default callback and the
  emission invokes it, as node 1, the sentinel.
\<close>

theorem sentinel_holds_default_callback:
  "on_world sentinel_slot
     (signal_run 1 CollectorVector (Some (Callback [] (\<lambda>x::unit. 7::int))) [Emit ()] (\<lambda>a. True))
     = Inr (Some (Callback [] (\<lambda>x. 7)))
   \<and> observe
     (signal_run 1 CollectorVector (Some (Callback [] (\<lambda>x::unit. 7::int))) [Emit ()] (\<lambda>a. True))
     = Inr ([[7]], [1])"
  by (simp add: eval_nat_numeral prim_defs op_defs run_defs CollectorVector_def sentinel_slot_def)

text \<open>
  C2, as amended.  In every state a client reaches from the constructor by connecting
  callbacks that do not re-enter the signal, disconnecting and toggling through handles
  (which never point at the sentinel) and emitting, the sentinel's callback slot holds the
  default callback given to the constructor; it is empty exactly when there was none.  An
  emission in such a state invokes the callback stored in the sentinel exactly when the
  slot is not empty and the sentinel's enabled flag, which is never written, reads true.
\<close>

theorem sentinel_slot_is_default_callback:
  assumes "pure_cb m" "list_all plain_call calls" "list_all (\<lambda>c. target c \<noteq> Some 1) calls"
    and "length calls < k" "signal_run k C m calls u = Inr (rs, w)"
  shows "sentinel_slot w = m
       \<and> (\<exists>r tr. emit k C' args w = Inr (r, w\<lparr>trace := trace w @ tr\<rparr>)
             \<and> (1 \<in> set tr \<longleftrightarrow> m \<noteq> None \<and> u 1))"
proof -
  from ProtoSignal_inv[OF assms(1), of u] obtain w0 where
    w0: "ProtoSignal m (init_world u) = Inr w0" "signal_inv m 1 w0 []" "uninit w0 = u" by blast
  have run: "run_calls k C calls w0 = Inr (rs, w)"
    using assms(5) w0(1) by (simp add: signal_run_def andThen_def)
  have t: "\<forall>c\<in>set calls. target c \<noteq> Some 1 \<and> target c \<notin> Some ` {}"
    using assms(3) by (simp add: list_all_iff)
  from run_calls_inv[OF w0(2) assms(2) t, of k C] assms(4) run w0(3) obtain xs where
    inv: "signal_inv m 1 w xs" "length xs \<le> length calls" "uninit w = u" by auto
  have len: "length xs < k" using inv(2) assms(4) by simp
  from emit_sentinel[OF inv(1) len, of C' args] signal_inv_sentinel[OF inv(1)] inv(3)
  show ?thesis by simp
qed

theorem sentinel_slot_is_default_callback_witness:
  "pure_cb (Some (Callback [] (\<lambda>x::unit. 7::int)))
   \<and> list_all plain_call [Connect (Some (Callback [] (\<lambda>x::unit. 5::int))), Emit (), Disconnect 2]
   \<and> list_all (\<lambda>c. target c \<noteq> Some 1)
        [Connect (Some (Callback [] (\<lambda>x::unit. 5::int))), Emit (), Disconnect 2]
   \<and> \<not> isl (signal_run 4 CollectorVector (Some (Callback [] (\<lambda>x::unit. 7::int)))
        [Connect (Some (Callback [] (\<lambda>x. 5))), Emit (), Disconnect 2] (\<lambda>a. True))
   \<and> sentinel_slot (snd (projr (signal_run 4 CollectorVector (Some (Callback [] (\<lambda>x::unit. 7::int)))
        [Connect (Some (Callback [] (\<lambda>x. 5))), Emit (), Disconnect 2] (\<lambda>a. True))))
       = Some (Callback [] (\<lambda>x. 7))"
proof -
  let ?X = "signal_run 4 CollectorVector (Some (Callback [] (\<lambda>x::unit. 7::int)))
        [Connect (Some (Callback [] (\<lambda>x. 5))), Emit (), Disconnect 2] (\<lambda>a. True)"
  have r: "\<not> isl ?X"
    by (simp add: eval_nat_numeral prim_defs op_defs run_defs CollectorVector_def)
  then have e: "?X = Inr (fst (projr ?X), snd (projr ?X))" by (cases ?X) auto
  have h: "pure_cb (Some (Callback [] (\<lambda>x::unit. 7::int)))"
     "list_all plain_call [Connect (Some (Callback [] (\<lambda>x::unit. 5::int))), Emit (), Disconnect 2]"
     "list_all (\<lambda>c. target c \<noteq> Some 1)
        [Connect (Some (Callback [] (\<lambda>x::unit. 5::int))), Emit (), Disconnect 2]"
     "length [Connect (Some (Callback [] (\<lambda>x::unit. 5::int))), Emit (), Disconnect 2] < 4"
    by (simp_all add: pure_cb_def)
  from sentinel_slot_is_default_callback[OF h e, of CollectorVector "()"] r h show ?thesis by simp
qed

subsection \<open>The Until0 collector\<close>

text \<open>
  Until0 continues while the value just stored is true.  With handlers returning false,
  true, false the first result already stops the emission: only the first handler (node 2)
  is invoked and the result is false.
\<close>

theorem until0_stops_at_first_false:
  "observe (signal_run 4 (CollectorUntil0 (\<lambda>b. b) False) None
      [Connect (Some (Callback [] (\<lambda>x::unit. False))), Connect (Some (Callback [] (\<lambda>x. True))),
       Connect (Some (Callback [] (\<lambda>x. False))), Emit ()] (\<lambda>a. True))
   = Inr ([False], [2])"
  by (simp add: eval_nat_numeral prim_defs op_defs run_defs CollectorUntil0_def)

text \<open>
  C3, as amended.  For a signal using the Until0 collector with three connected handlers
  returning false, true, false in that order, the first of them enabled, emit() stops
  after the first handler, the second and third handlers are not invoked, and the
  emission's result is false.
\<close>

theorem until0_false_true_false:
  assumes "u 2"
  shows "observe (signal_run (Suc (Suc (Suc (Suc k)))) (CollectorUntil0 (\<lambda>b. b) False) None
      [Connect (Some (Callback [] (\<lambda>x. False))), Connect (Some (Callback [] (\<lambda>x. True))),
       Connect (Some (Callback [] (\<lambda>x. False))), Emit args] u)
   = Inr ([False], [2])"
  using assms by (simp add: eval_nat_numeral prim_defs op_defs run_defs CollectorUntil0_def)

theorem until0_false_true_false_witness:
  "(\<lambda>a::addr. True) 2
   \<and> observe (signal_run (Suc (Suc (Suc (Suc 0)))) (CollectorUntil0 (\<lambda>b. b) False) None
      [Connect (Some (Callback [] (\<lambda>x::unit. False))), Connect (Some (Callback [] (\<lambda>x. True))),
       Connect (Some (Callback [] (\<lambda>x. False))), Emit ()] (\<lambda>a. True))
   = Inr ([False], [2])"
  using until0_false_true_false[of "\<lambda>a. True" 0 "()"] by simp

subsection \<open>Connecting during an emission\<close>

text \<open>
  A callback that connects a further callback D while it runs: D is linked in before the
  sentinel, and with the flags reading true D is invoked in the same pass, after the
  callbacks connected before the emission.
\<close>

lemma reentrant_connect_same_pass:
  assumes "u 2" "u 3" "u 4"
  shows "observe (signal_run (Suc (Suc (Suc (Suc (Suc k))))) CollectorVector None
      [Connect (Some (Callback [ActConnect (Callback [] h)] f)),
       Connect (Some (Callback [] g)), Emit x] u)
   = Inr ([[f x, g x, h x]], [2, 3, 4])"
  using assms by (simp add: eval_nat_numeral prim_defs op_defs run_defs CollectorVector_def)

text \<open>
  C5.  Claimed: a callback D connected by a running callback is spliced in immediately
  before the sentinel and is invoked within the same pass.  The splice happens (the
  successor of the last node is D's node 4, whose successor is the sentinel, whose
  predecessor is node 4), but D's flag is never written: where it reads false the pass
  returns to the sentinel without invoking D.
\<close>

theorem reentrant_connect_not_invoked:
  "observe (signal_run 5 CollectorVector None
      [Connect (Some (Callback [ActConnect (Callback [] (\<lambda>x. 30))] (\<lambda>x::unit. 10::int))),
       Connect (Some (Callback [] (\<lambda>x. 20))), Emit ()] (\<lambda>a. a \<noteq> 4))
   = Inr ([[10, 20]], [2, 3])
   \<and> on_world (\<lambda>w. (nxt (heap w) 3, nxt (heap w) 4, prv (heap w) 1))
       (signal_run 5 CollectorVector None
      [Connect (Some (Callback [ActConnect (Callback [] (\<lambda>x. 30))] (\<lambda>x::unit. 10::int))),
       Connect (Some (Callback [] (\<lambda>x. 20))), Emit ()] (\<lambda>a. a \<noteq> 4))
   = Inr (Some 4, Some 1, Some 4)"
  by (simp add: eval_nat_numeral prim_defs op_defs run_defs CollectorVector_def nxt_def prv_def)

subsection \<open>Emission on an empty signal\<close>

text \<open>
  C6.  On a signal whose ring was never materialised, emit invokes nothing and returns
  \<open>result()\<close> of a freshly constructed collector.  For Until0 that is the
  value-initialised result.  For the Last collector it is the member \<open>_last\<close>, which
  no constructor initialises: the emission returns whatever that member holds, here 42,
  not the default value of the result type.
\<close>

theorem last_collector_result_uninitialised:
  "emit k C args (w\<lparr>callbackRing := None\<rparr>) = Inr (c_result C (c_init C), w\<lparr>callbackRing := None\<rparr>)
   \<and> c_result (CollectorLast (42::int)) (c_init (CollectorLast 42)) = 42
   \<and> c_result (CollectorUntil0 truthy zero) (c_init (CollectorUntil0 truthy zero)) = zero
   \<and> emit k (CollectorLast (42::int)) args (init_world u) = Inr (42, init_world u)"
  by (simp add: emit_def CollectorLast_def CollectorUntil0_def init_world_def)

subsection \<open>Disconnecting through a handle\<close>

text \<open>
  C4.  On a well-formed ring, the first \<open>disconnect()\<close> through a handle returns true
  exactly when the handle's node is connected, that is, one of the ring's callback nodes;
  it then unlinks and frees that node.  It returns false, and changes nothing, for a
  handle that was moved from and for a handle whose node is still allocated but no longer
  in the ring (its stale successor link is null or points into the ring).  In every case
  the handle is left null, so each later \<open>disconnect()\<close> through it returns false and
  changes nothing.
\<close>

theorem disconnect_once_then_false:
  assumes "ring_ok w s xs" "length xs < k"
    and "h = None \<or> (\<exists>x nd. h = Some x \<and> x \<noteq> s \<and> heap w x = Some nd
            \<and> (x \<in> set xs \<or> link_next nd = None \<or> (\<exists>n\<in>set (s # xs). link_next nd = Some n)))"
  shows "\<exists>h' w'. disconnect k h w = Inr (h \<in> Some ` set xs, h', w')
           \<and> (h \<notin> Some ` set xs \<longrightarrow> w' = w)
           \<and> (\<forall>x. h = Some x \<and> x \<in> set xs \<longrightarrow> ring_ok w' s (remove1 x xs) \<and> heap w' x = None)
           \<and> (\<forall>j. disconnect j h' w' = Inr (False, h', w'))"
proof (cases h)
  case None
  then show ?thesis by (intro exI[of _ None] exI[of _ w]) (simp add: disconnect_def)
next
  case (Some x)
  with assms(3) obtain nd where nd: "x \<noteq> s" "heap w x = Some nd"
    "x \<in> set xs \<or> link_next nd = None \<or> (\<exists>n\<in>set (s # xs). link_next nd = Some n)" by auto
  from assms(1) have at: "ring_at (heap w) s xs" by (simp add: ring_ok_def)
  show ?thesis
  proof (cases "x \<in> set xs")
    case True
    then obtain as bs where xs: "xs = as @ x # bs" "x \<notin> set as" by (meson split_list_first)
    have r1: "remove1 x xs = as @ bs" using xs by (simp add: remove1_append)
    have len: "length (as @ bs) < k" using assms(2) xs by simp
    from removeLink_ring[OF assms(1)[unfolded xs(1)] len] obtain H where
      H: "removeLink k x w = Inr (True, w\<lparr>heap := H\<rparr>)" "ring_ok (w\<lparr>heap := H\<rparr>) s (as @ bs)"
         "H x = None" by blast
    show ?thesis using Some True H r1
      by (intro exI[of _ None] exI[of _ "w\<lparr>heap := H\<rparr>"]) (simp add: disconnect_def)
  next
    case False
    have "removeLink k x w = Inr (False, w)"
    proof (cases "link_next nd")
      case None
      then show ?thesis using nd(2) by (simp add: removeLink_def)
    next
      case (Some n)
      with nd(3) False have n: "n \<in> set (s # xs)" by auto
      have "Some x \<notin> Some ` (set (s # xs) - {n})" using False nd(1) by auto
      from removeSibling_ring_miss[OF at n this assms(2)] show ?thesis
        using nd(2) Some by (simp add: removeLink_def)
    qed
    then show ?thesis using Some False
      by (intro exI[of _ None] exI[of _ w]) (auto simp: disconnect_def)
  qed
qed

theorem disconnect_once_then_false_witness:
  "ring_ok two_handlers 1 [2, 3] \<and> length [2::addr, 3] < 3
   \<and> fst (projr (disconnect 3 (Some 2) two_handlers)) = True
   \<and> fst (snd (projr (disconnect 3 (Some 2) two_handlers))) = None
   \<and> ring_ok (snd (snd (projr (disconnect 3 (Some 2) two_handlers)))) 1 [3]
   \<and> disconnect 3 None (snd (snd (projr (disconnect 3 (Some 2) two_handlers))))
       = Inr (False, None, snd (snd (projr (disconnect 3 (Some 2) two_handlers))))"
proof -
  have h: "Some 2 = None \<or> (\<exists>x nd. Some 2 = Some x \<and> x \<noteq> 1 \<and> heap two_handlers x = Some nd
            \<and> (x \<in> set [2, 3] \<or> link_next nd = None \<or> (\<exists>n\<in>set (1 # [2, 3]). link_next nd = Some n)))"
    by (simp add: two_handlers_heap)
  have l: "length [2::addr, 3] < 3" by simp
  from disconnect_once_then_false[OF two_handlers_ring l h]
  obtain h' w' where r: "disconnect 3 (Some 2) two_handlers = Inr (Some 2 \<in> Some ` set [2, 3], h', w')"
    "ring_ok w' 1 (remove1 2 [2, 3])" "\<forall>j. disconnect j h' w' = Inr (False, h', w')"
    by auto
  have "h' = None" using r(1) by (auto simp: disconnect_def split: sum.splits)
  then show ?thesis using r two_handlers_ring by simp
qed

subsection \<open>The enabled flag\<close>

text \<open>
  C7.  Let \<open>x\<close> be a connected node holding a callback.  After its flag is set to false
  through its handle, whatever the client does next (connecting callbacks that do not
  re-enter, disconnecting or toggling other nodes, emitting with any collector), no
  emission invokes \<open>x\<close>, and \<open>x\<close> stays in the ring.  Once the flag is set back to
  true, an emission with a collector that never stops early invokes \<open>x\<close> exactly once.
\<close>

theorem disabled_skipped_enabled_invoked:
  assumes "signal_inv m s w xs" "x \<in> set xs" "x \<noteq> s"
    and "\<exists>nd c. heap w x = Some nd \<and> callbackFunc nd = Some c"
    and "list_all plain_call calls"
    and "list_all (\<lambda>c. target c \<noteq> Some s \<and> target c \<noteq> Some x) calls"
    and "length xs + length calls < k"
    and "\<forall>cs r. snd (c_call C2 cs r)"
    and "run_calls k C (SetEnabled x False # calls) w = Inr (rs, w2)"
  shows "x \<notin> set (drop (length (trace w)) (trace w2))
       \<and> (\<exists>xs2. signal_inv m s w2 xs2 \<and> x \<in> set xs2)
       \<and> (\<exists>r w3. run_calls k C2 [SetEnabled x True, Emit args] w2 = Inr ([r], w3)
             \<and> count_list (drop (length (trace w2)) (trace w3)) x = 1)"
proof -
  from assms(4) obtain nd c where nd: "heap w x = Some nd" "callbackFunc nd = Some c" by blast
  from setEnabled_inv[OF assms(1,3), of False] assms(2) nd(1) obtain w1 where
    w1: "ref_setEnabled (Some x) False w = Inr w1" "signal_inv m s w1 xs" "trace w1 = trace w"
        "heap w1 = (heap w)(x \<mapsto> nd\<lparr>enabled := False\<rparr>)" by auto
  have off: "\<not> active (heap w1) x" using w1(4) by (simp add: active_def)
  have run: "run_calls k C calls w1 = Inr (rs, w2)" using assms(9) w1(1) by simp
  have t: "\<forall>c\<in>set calls. target c \<noteq> Some s \<and> target c \<notin> Some ` {x}"
    using assms(6) by (auto simp: list_all_iff)
  have X: "{x} \<subseteq> set xs" using assms(2) by simp
  from run_calls_inv[OF w1(2) assms(5) t X assms(7), of C] run obtain xs2 tr where
    w2: "signal_inv m s w2 xs2" "length xs2 \<le> length xs + length calls" "x \<in> set xs2"
        "map_option payload (heap w2 x) = map_option payload (heap w1 x)"
        "trace w2 = trace w1 @ tr" "x \<in> set tr \<longrightarrow> active (heap w1) x" by auto
  have skip: "x \<notin> set (drop (length (trace w)) (trace w2))" using w2(5,6) off w1(3) by simp
  from w2(4) w1(4) obtain nd2 where nd2: "heap w2 x = Some nd2" "callbackFunc nd2 = Some c"
    using nd(2) by (cases "heap w2 x") (auto simp: payload_def)
  from setEnabled_inv[OF w2(1) assms(3), of True] w2(3) nd2(1) obtain w2' where
    w2': "ref_setEnabled (Some x) True w2 = Inr w2'" "signal_inv m s w2' xs2" "trace w2' = trace w2"
        "heap w2' = (heap w2)(x \<mapsto> nd2\<lparr>enabled := True\<rparr>)" by auto
  have on: "active (heap w2') x" using w2'(4) nd2(2) by (simp add: active_def)
  have len: "length xs2 < k" using w2(2) assms(7) by simp
  note al = signal_inv_alloc[OF w2'(2) w2(3)]
  let ?tr = "snd (collect C2 args (heap w2') (s # xs2) (c_init C2))"
  let ?r = "c_result C2 (fst (collect C2 args (heap w2') (s # xs2) (c_init C2)))"
  have tr: "?tr = filter (active (heap w2')) (s # xs2)"
    by (rule collect_always) (use assms(8) al(1) in auto)
  have e: "emit k C2 args w2' = Inr (?r, w2'\<lparr>trace := trace w2' @ ?tr\<rparr>)"
    using emit_inv[OF w2'(2) len, of C2 args] al(3) by (simp del: collect.simps)
  have r: "run_calls k C2 [SetEnabled x True, Emit args] w2 = Inr ([?r], w2'\<lparr>trace := trace w2' @ ?tr\<rparr>)"
    using w2'(1) e by (simp del: collect.simps)
  have "count_list ?tr x = 1"
    unfolding tr by (rule count_filter_distinct) (use al(2) w2(3) on in auto)
  then have cnt: "count_list (drop (length (trace w2)) (trace (w2'\<lparr>trace := trace w2' @ ?tr\<rparr>))) x = 1"
    using w2'(3) by (simp del: collect.simps)
  show ?thesis using skip w2(1,3) r cnt by blast
qed

theorem disabled_skipped_enabled_invoked_witness:
  "signal_inv None 1 two_handlers [2, 3]
   \<and> observe (run_calls 7 CollectorVector
        [SetEnabled 2 False, Emit (), Connect (Some (Callback [] (\<lambda>x. 30))), Emit ()] two_handlers)
       = Inr ([[20], [20, 30]], [3, 3, 4])
   \<and> 2 \<notin> set (drop (length (trace two_handlers)) (trace (snd (projr (run_calls 7 CollectorVector
        [SetEnabled 2 False, Emit (), Connect (Some (Callback [] (\<lambda>x. 30))), Emit ()] two_handlers)))))
   \<and> observe (run_calls 7 CollectorVector [SetEnabled 2 True, Emit ()]
        (snd (projr (run_calls 7 CollectorVector
          [SetEnabled 2 False, Emit (), Connect (Some (Callback [] (\<lambda>x. 30))), Emit ()] two_handlers))))
       = Inr ([[10, 20, 30]], [3, 3, 4, 2, 3, 4])"
proof -
  let ?calls = "[Emit (), Connect (Some (Callback [] (\<lambda>x. 30::int))), Emit ()] :: (unit, int) call list"
  let ?X = "run_calls 7 CollectorVector (SetEnabled 2 False # ?calls) two_handlers"
  have ev: "observe ?X = Inr ([[20], [20, 30]], [3, 3, 4])"
    by (simp add: two_handlers_def eval_nat_numeral prim_defs op_defs run_defs CollectorVector_def)
  then have e: "?X = Inr (fst (projr ?X), snd (projr ?X))"
    by (cases ?X) (auto simp: observe_def)
  have ev2: "observe (run_calls 7 CollectorVector [SetEnabled 2 True, Emit ()] (snd (projr ?X)))
       = Inr ([[10, 20, 30]], [3, 3, 4, 2, 3, 4])"
    by (simp add: two_handlers_def eval_nat_numeral prim_defs op_defs run_defs CollectorVector_def)
  have h: "(2::addr) \<in> set [2, 3]" "(2::addr) \<noteq> 1"
    "\<exists>nd c. heap two_handlers 2 = Some nd \<and> callbackFunc nd = Some c"
    "list_all plain_call ?calls"
    "list_all (\<lambda>c. target c \<noteq> Some 1 \<and> target c \<noteq> Some 2) ?calls"
    "length [2::addr, 3] + length ?calls < 7"
    "\<forall>cs r. snd (c_call (CollectorVector :: (int, int list, int list) collector) cs r)"
    by (simp_all add: two_handlers_heap pure_cb_def CollectorVector_def)
  from disabled_skipped_enabled_invoked[OF two_handlers_inv h e, of "()"] ev ev2 two_handlers_inv
  show ?thesis by simp
qed

subsection \<open>removeSibling and remove\<close>

text \<open>
  C8.  On a well-formed ring, \<open>removeSibling(target)\<close> called on a ring node \<open>self\<close>
  returns true exactly when \<open>target\<close> is another node of the ring; any other pointer
  (null, stale, foreign, or \<open>self\<close>) gives false and leaves the store unchanged.  When
  the target is one of the callback nodes, the call is \<open>unlink\<close> of that node: the ring
  is the old ring without it and the node is freed.  \<open>remove()\<close> on a node without a
  successor link returns false.
\<close>

theorem removeSibling_iff_in_ring:
  assumes "ring_ok w s xs" "self \<in> set (s # xs)" "length xs < k"
  shows "(\<exists>w'. removeSibling k self t w = Inr (t \<in> Some ` (set (s # xs) - {self}), w')
            \<and> (t \<notin> Some ` (set (s # xs) - {self}) \<longrightarrow> w' = w)
            \<and> (\<forall>x. t = Some x \<and> x \<in> set xs - {self} \<longrightarrow>
                  unlink x w = Inr w' \<and> ring_ok w' s (remove1 x xs) \<and> heap w' x = None))
       \<and> (\<forall>y nd. heap w y = Some nd \<and> link_next nd = None \<longrightarrow> removeLink k y w = Inr (False, w))"
proof -
  from assms(1) have at: "ring_at (heap w) s xs" by (simp add: ring_ok_def)
  have A: "\<exists>w'. removeSibling k self t w = Inr (t \<in> Some ` (set (s # xs) - {self}), w')
            \<and> (t \<notin> Some ` (set (s # xs) - {self}) \<longrightarrow> w' = w)
            \<and> (\<forall>x. t = Some x \<and> x \<in> set xs - {self} \<longrightarrow>
                  unlink x w = Inr w' \<and> ring_ok w' s (remove1 x xs) \<and> heap w' x = None)"
  proof (cases "t \<in> Some ` (set (s # xs) - {self})")
    case False
    from removeSibling_ring_miss[OF at assms(2) False assms(3)] False show ?thesis by auto
  next
    case True
    then obtain x where x: "t = Some x" "x \<in> set (s # xs) - {self}" by auto
    note hit = removeSibling_ring_hit[OF at assms(2) x(2) assms(3)]
    show ?thesis
    proof (cases "x \<in> set xs")
      case False
      with x(2) have "x \<in> set (s # xs)" by simp
      from unlink_ring_succeeds[OF assms(1) this] obtain w' where "unlink x w = Inr w'" by blast
      then show ?thesis using hit True x False by auto
    next
      case xin: True
      then obtain as bs where xs: "xs = as @ x # bs" "x \<notin> set as" by (meson split_list_first)
      have r1: "remove1 x xs = as @ bs" using xs by (simp add: remove1_append)
      from unlink_ring[OF assms(1)[unfolded xs(1)]] obtain H where
        H: "unlink x w = Inr (w\<lparr>heap := H\<rparr>)" "ring_ok (w\<lparr>heap := H\<rparr>) s (as @ bs)" "H x = None"
        by blast
      show ?thesis using hit True x H r1 by auto
    qed
  qed
  have B: "\<forall>y nd. heap w y = Some nd \<and> link_next nd = None \<longrightarrow> removeLink k y w = Inr (False, w)"
    by (simp add: removeLink_def)
  from A B show ?thesis by blast
qed

theorem removeSibling_iff_in_ring_witness:
  "ring_ok two_handlers 1 [2, 3] \<and> (3::addr) \<in> set (1 # [2, 3]) \<and> length [2::addr, 3] < 3
   \<and> fst (projr (removeSibling 3 3 (Some 2) two_handlers)) = True
   \<and> removeSibling 3 3 (Some 7) two_handlers = Inr (False, two_handlers)
   \<and> removeSibling 3 3 (Some 3) two_handlers = Inr (False, two_handlers)
   \<and> ring_ok (snd (projr (removeSibling 3 3 (Some 2) two_handlers))) 1 [3]"
proof -
  note r = two_handlers_ring
  have m: "(3::addr) \<in> set (1 # [2, 3])" "length [2::addr, 3] < 3" by simp_all
  from removeSibling_iff_in_ring[OF r m, of "Some 2"]
       removeSibling_iff_in_ring[OF r m, of "Some 7"]
       removeSibling_iff_in_ring[OF r m, of "Some 3"]
  show ?thesis using r by auto
qed

subsection \<open>The assertions\<close>


text \<open>
  Every call is sure to return only when the callbacks do not re-enter: a callback that
  removes its own node and then the next one, both through valid handles, leaves the
  emission on a node whose successor has been freed.
\<close>

lemma reentrant_removal_dangles:
  "signal_run 3 CollectorVector None
     [Connect (Some (Callback [ActRemove 2, ActRemove 3] (\<lambda>x::unit. 10::int))),
      Connect (Some (Callback [] (\<lambda>x. 20))), Emit ()] (\<lambda>a. True) = Inl Dangling"
  by (simp add: eval_nat_numeral prim_defs op_defs run_defs CollectorVector_def)

text \<open>
  A removal that goes to the sentinel takes one of its two references, the one the
  destructor's assertion counts on.
\<close>

lemma removed_sentinel_loses_reference:
  "on_world sentinel_refs (signal_run 3 CollectorVector None
     [Connect (Some (Callback [] (\<lambda>x::unit. 10::int))), Disconnect 1] (\<lambda>a. True)) = Inr (Some 1)"
  by (simp add: eval_nat_numeral prim_defs op_defs run_defs sentinel_refs_def)



end
